theory Spec2Isabelle
  imports
    Main
    "HOL-Library.AList"
    "HOL-Library.Sublist"
    "HOL-Library.Char_ord"
    "HOL-Library.List_Lexorder"
    "HOL-Library.Multiset"
begin

section \<open>The document bowl of \<^verbatim>\<open>src/soup.ts\<close>\<close>

text \<open>
  A shallow embedding of \<^verbatim>\<open>soup.ts\<close>: documents, the comparators, the query filter,
  the \<^verbatim>\<open>Bowl\<close> class with its three indexes, its write events and its followers.

  Conventions of the embedding.
  \<^item> A JavaScript \<^verbatim>\<open>number\<close> that holds a timestamp or a length is an \<open>int\<close>, a local
    index is a \<open>nat\<close>; both are unbounded (the loss of precision of a double above
    \<open>2^53\<close>, \<^verbatim>\<open>NaN\<close> and the infinities are not modelled).
  \<^item> A JavaScript string is a \<open>string\<close>; \<open><\<close> on strings is the lexicographic order
    of the characters, as the comparison of JavaScript is on the code units.
  \<^item> A \<^verbatim>\<open>Map\<close> is an association list in insertion order: \<^verbatim>\<open>get\<close> is \<open>map_of\<close>,
    \<^verbatim>\<open>set\<close> is \<open>AList.update\<close> (a key that is present keeps its place, a new key goes
    last), \<^verbatim>\<open>values()\<close> is \<open>map snd\<close>, \<^verbatim>\<open>keys()\<close> is \<open>map fst\<close>.
  \<^item> An optional property is an \<open>option\<close>; \<open>None\<close> is \<^verbatim>\<open>undefined\<close>.
  \<^item> A callback is modelled by what it is called with: the list of its arguments so far.
    A callback that throws, or that calls back into the bowl, is outside the model.
  \<^item> The bowl is mutated in place in the source; here every method takes the bowl and
    returns the bowl after the call. A method that throws returns the error and the bowl
    as the statements before the throw have left it.
  \<^item> The module is strict code (it is an ECMAScript module): an assignment to a property
    of a frozen object throws a \<^verbatim>\<open>TypeError\<close>. Whether a document is frozen is the field
    \<open>frozen\<close> of the document. (An object that is not extensible and has no
    \<^verbatim>\<open>_localIndex\<close> yet makes the same assignment throw; it is not modelled apart.)
\<close>

subsection \<open>Helpers imported from \<^verbatim>\<open>./utils\<close>\<close>

datatype Cmp = LT | EQ | GT

text \<open>
  Modelled from the spec: the module \<^verbatim>\<open>./utils\<close> (\<^verbatim>\<open>Cmp\<close>, \<^verbatim>\<open>arrayCompare\<close>,
  \<^verbatim>\<open>keyComparer\<close>) is not among the sources. The spec describes the overwrite order as
  the order of the pair (timestamp, signature) with the signature breaking ties
  lexicographically, and the path order as the order of the pair (path, timestamp):
  \<^verbatim>\<open>arrayCompare\<close> compares two arrays element by element and the first difference
  decides. Both of its uses are on arrays of length two, so it is given on pairs. The
  values of \<^verbatim>\<open>Cmp\<close> are what a comparator answers \<^verbatim>\<open>Array.prototype.sort\<close>: \<open>LT\<close> is
  negative, \<open>EQ\<close> is zero, \<open>GT\<close> is positive.
\<close>

definition baseCompare :: "'a::linorder \<Rightarrow> 'a \<Rightarrow> Cmp" where
  "baseCompare a b = (if a < b then LT else if b < a then GT else EQ)"

definition arrayCompare :: "'a::linorder \<times> 'b::linorder \<Rightarrow> 'a \<times> 'b \<Rightarrow> Cmp" where
  "arrayCompare a b =
     (case baseCompare (fst a) (fst b) of
        EQ \<Rightarrow> baseCompare (snd a) (snd b)
      | c \<Rightarrow> c)"

text \<open>
  Modelled from the spec: \<^verbatim>\<open>keyComparer\<close> of \<^verbatim>\<open>./utils\<close> is not among the sources. The
  query engine of the spec orders documents by \<^verbatim>\<open>path\<close> or by \<^verbatim>\<open>localIndex\<close>, ascending;
  \<^verbatim>\<open>keyComparer(key)\<close> is the comparator the sort is given for that: it compares two
  objects by the property \<^verbatim>\<open>key\<close>. The property is passed as its selector; a property
  that is \<^verbatim>\<open>undefined\<close> is neither below nor above anything.
\<close>

definition keyComparer :: "('d \<Rightarrow> 'k::linorder option) \<Rightarrow> 'd \<Rightarrow> 'd \<Rightarrow> Cmp" where
  "keyComparer key a b =
     (case (key a, key b) of
        (Some x, Some y) \<Rightarrow> baseCompare x y
      | _ \<Rightarrow> EQ)"

subsection \<open>\<^verbatim>\<open>Array.prototype.sort\<close>, \<^verbatim>\<open>Set\<close>\<close>

text \<open>
  \<^verbatim>\<open>Array.prototype.sort\<close> is a stable sort when the comparator is consistent (a total
  preorder on the elements of the array); for any other comparator the language leaves
  the order to the engine. The model is the sort of V8, the engine of Node, on an array
  of fewer than 64 elements: the run at the start of the array is found (\<open>countRun\<close>, the
  loop of \<^verbatim>\<open>CountAndMakeRun\<close>) and reversed if it is strictly descending, and every further
  element is put into the sorted part by binary insertion (\<open>binarySearch\<close> and
  \<open>binaryInsert\<close>, the loops of \<^verbatim>\<open>BinaryInsertionSort\<close>). A longer array is cut into
  several runs that are merged; on a consistent comparator that gives the same array,
  the stable sort of the elements (lemma \<open>stable_array_sort\<close> below).

  \<open>binarySearch cmp pivot xs left right\<close> is the place of \<open>pivot\<close> among the elements
  \<open>left, \<dots>, right - 1\<close> of \<open>xs\<close>; it is called with \<open>right \<le> length xs\<close> only.
\<close>

function binarySearch :: "('a \<Rightarrow> 'a \<Rightarrow> Cmp) \<Rightarrow> 'a \<Rightarrow> 'a list \<Rightarrow> nat \<Rightarrow> nat \<Rightarrow> nat" where
  "binarySearch cmp pivot xs left right =
     (if left < right then
        (let mid = left + (right - left) div 2
         in if cmp pivot (xs ! mid) = LT then binarySearch cmp pivot xs left mid
            else binarySearch cmp pivot xs (mid + 1) right)
      else left)"
  by pat_completeness auto
termination
  by (relation "measure (\<lambda>(cmp, pivot, xs, left, right). right - left)") auto

declare binarySearch.simps [simp del]

definition binaryInsert :: "('a \<Rightarrow> 'a \<Rightarrow> Cmp) \<Rightarrow> 'a list \<Rightarrow> 'a \<Rightarrow> 'a list" where
  "binaryInsert cmp xs pivot =
     (let left = binarySearch cmp pivot xs 0 (length xs)
      in take left xs @ pivot # drop left xs)"

text \<open>
  How many elements of \<open>rest\<close> continue the run that ends with \<open>previousElement\<close>: a
  descending run goes on while the next element is smaller than the one before it, any
  other run while it is not.
\<close>

fun countRun :: "('a \<Rightarrow> 'a \<Rightarrow> Cmp) \<Rightarrow> bool \<Rightarrow> 'a \<Rightarrow> 'a list \<Rightarrow> nat" where
  "countRun cmp isDescending previousElement [] = 0"
| "countRun cmp isDescending previousElement (currentElement # rest) =
     (if (cmp currentElement previousElement = LT) = isDescending
      then Suc (countRun cmp isDescending currentElement rest)
      else 0)"

definition array_sort :: "('a \<Rightarrow> 'a \<Rightarrow> Cmp) \<Rightarrow> 'a list \<Rightarrow> 'a list" where
  "array_sort cmp xs =
     (case xs of
        x # y # rest \<Rightarrow>
          (let isDescending = (cmp y x = LT);
               runLength = 2 + countRun cmp isDescending y rest;
               run = take runLength xs
           in foldl (binaryInsert cmp) (if isDescending then rev run else run)
                (drop runLength xs))
      | _ \<Rightarrow> xs)"

text \<open>
  \<^verbatim>\<open>[...new Set(xs)]\<close>: the elements of \<open>xs\<close> without repetition, each at the place of
  its first occurrence.
\<close>

definition set_add :: "'a list \<Rightarrow> 'a \<Rightarrow> 'a list" where
  "set_add acc x = (if x \<in> set acc then acc else acc @ [x])"

definition new_Set :: "'a list \<Rightarrow> 'a list" where
  "new_Set xs = foldl set_add [] xs"

subsection \<open>Documents\<close>

type_synonym AuthorAddress = string
type_synonym Path = string
type_synonym Signature = string
type_synonym Timestamp = int
type_synonym LocalIndex = nat

record AuthorKeypair =
  address :: AuthorAddress
  secret :: string

text \<open>
  The property \<^verbatim>\<open>_localIndex\<close> is the field \<open>localIndex\<close>. The field \<open>frozen\<close> is not a
  property: it says whether \<^verbatim>\<open>Object.freeze\<close> has been applied to the object, as it has
  to every document that a bowl has stored.
\<close>

record Doc =
  path :: Path
  timestamp :: Timestamp
  author :: AuthorAddress
  content :: string
  contentHash :: string
  contentLength :: int
  signature :: Signature
  localIndex :: "LocalIndex option"
  frozen :: bool

record DocToWrite =
  toWrite_path :: Path
  toWrite_author :: AuthorAddress
  toWrite_content :: string

definition combinePathAndAuthor :: "Doc \<Rightarrow> string" where
  "combinePathAndAuthor doc = path doc @ ''|'' @ author doc"

definition docComparePathThenNewestFirst :: "Doc \<Rightarrow> Doc \<Rightarrow> Cmp" where
  "docComparePathThenNewestFirst a b =
     (if signature a = signature b then EQ
      else arrayCompare (path a, - timestamp a) (path b, - timestamp b))"

definition docCompareForOverwrite :: "Doc \<Rightarrow> Doc \<Rightarrow> Cmp" where
  "docCompareForOverwrite newDoc oldDoc =
     arrayCompare (timestamp newDoc, signature newDoc) (timestamp oldDoc, signature oldDoc)"

text \<open>
  \<^verbatim>\<open>signDoc\<close> sets the signature to \<^verbatim>\<open>'sig' + fakeUuid()\<close>; the value \<^verbatim>\<open>fakeUuid()\<close>
  returns is the parameter \<open>uuid\<close>. The key pair is not used.
\<close>

definition signDoc :: "string \<Rightarrow> AuthorKeypair \<Rightarrow> Doc \<Rightarrow> Doc" where
  "signDoc uuid authorKeypair doc = doc\<lparr>signature := ''sig'' @ uuid\<rparr>"

definition docIsValid :: "Doc \<Rightarrow> bool" where
  "docIsValid doc = True"

subsection \<open>Events and followers\<close>

datatype UpsertResult =
  Obsolete | AlreadyHadIt | Invalid | AcceptedButNotLatest | AcceptedAndLatest

record WriteEvent =
  doc :: Doc
  isLatest :: bool
  previousDocSameAuthor :: "Doc option"
  previousLatestDoc :: "Doc option"

datatype FollowerKind = Sync | Async

datatype FollowerState = Running | Sleeping | Quitting

text \<open>
  The callback \<^verbatim>\<open>cb\<close> of a follower is the list \<open>cb_calls\<close> of the documents it has
  been called with, oldest first.
\<close>

record Follower =
  cb_calls :: "Doc list"
  nextIndex :: LocalIndex
  kind :: FollowerKind
  state :: "FollowerState option"

text \<open>
  What the module throws: the two errors of the followers, and the \<^verbatim>\<open>TypeError\<close> of an
  assignment to a property of a frozen object.
\<close>

datatype error = NotSleeping | NotRunning | TypeError

subsection \<open>The bowl\<close>

text \<open>
  \<open>onWriteCbs\<close> holds, for each registered callback, the events it has been called
  with. \<open>followers\<close> is the set of followers in insertion order; a follower is named by
  its position. \<open>immediates\<close> is the queue of \<^verbatim>\<open>setImmediate\<close>: each entry is a pending
  call of \<^verbatim>\<open>continueAsyncFollower\<close> for the follower at that position.
\<close>

record Bowl =
  highestLocalIndex :: LocalIndex
  docWithLocalIndex :: "(LocalIndex \<times> Doc) list"
  docWithPathAndAuthor :: "(string \<times> Doc) list"
  docsByPathNewestFirst :: "(Path \<times> Doc list) list"
  onWriteCbs :: "WriteEvent list list"
  followers :: "Follower list"
  immediates :: "nat list"

definition new_Bowl :: Bowl where
  "new_Bowl =
     \<lparr>highestLocalIndex = 0, docWithLocalIndex = [], docWithPathAndAuthor = [],
      docsByPathNewestFirst = [], onWriteCbs = [], followers = [], immediates = []\<rparr>"

subsection \<open>Query\<close>

record QueryFilter =
  filter_path :: "Path option"
  filter_pathStartsWith :: "string option"
  filter_pathEndsWith :: "string option"
  filter_author :: "AuthorAddress option"
  filter_timestamp :: "Timestamp option"
  filter_timestampGt :: "Timestamp option"
  filter_timestampLt :: "Timestamp option"
  filter_contentLength :: "int option"
  filter_contentLengthGt :: "int option"
  filter_contentLengthLt :: "int option"

datatype History = HistoryLatest | HistoryAll

datatype OrderBy = PathASC | PathDESC | LocalIndexASC | LocalIndexDESC

record StartAt =
  startAt_localIndex :: "nat option"
  startAt_path :: "string option"

text \<open>
  A property of a query that is left out is \<open>None\<close>. (A property that is present with
  the value \<^verbatim>\<open>undefined\<close> is not modelled.)
\<close>

record Query =
  history :: "History option"
  orderBy :: "OrderBy option"
  startAt :: "StartAt option"
  queryFilter :: "QueryFilter option"
  limit :: "nat option"

definition emptyQuery :: Query where
  "emptyQuery =
     \<lparr>history = None, orderBy = None, startAt = None, queryFilter = None, limit = None\<rparr>"

text \<open>\<^verbatim>\<open>s.startsWith(p)\<close> is \<open>prefix p s\<close>.\<close>

definition docMatchesFilter :: "Doc \<Rightarrow> QueryFilter \<Rightarrow> bool" where
  "docMatchesFilter d f =
     (if (case filter_path f of Some v \<Rightarrow> path d \<noteq> v | None \<Rightarrow> False) then False
      else if (case filter_pathStartsWith f of
                 Some v \<Rightarrow> \<not> prefix v (path d) | None \<Rightarrow> False) then False
      else if (case filter_pathEndsWith f of
                 Some v \<Rightarrow> \<not> prefix v (path d) | None \<Rightarrow> False) then False
      else if (case filter_author f of Some v \<Rightarrow> author d \<noteq> v | None \<Rightarrow> False) then False
      else if (case filter_timestamp f of
                 Some v \<Rightarrow> timestamp d \<noteq> v | None \<Rightarrow> False) then False
      else if (case filter_timestampGt f of
                 Some v \<Rightarrow> \<not> (timestamp d > v) | None \<Rightarrow> False) then False
      else if (case filter_timestampLt f of
                 Some v \<Rightarrow> \<not> (timestamp d > v) | None \<Rightarrow> False) then False
      else if (case filter_contentLength f of
                 Some v \<Rightarrow> contentLength d \<noteq> v | None \<Rightarrow> False) then False
      else if (case filter_contentLengthGt f of
                 Some v \<Rightarrow> \<not> (contentLength d > v) | None \<Rightarrow> False) then False
      else if (case filter_contentLengthLt f of
                 Some v \<Rightarrow> \<not> (contentLength d > v) | None \<Rightarrow> False) then False
      else True)"

subsection \<open>Followers\<close>

text \<open>
  \<^verbatim>\<open>wakeAsyncFollower\<close> throws unless the follower sleeps, sets it running and schedules
  \<^verbatim>\<open>continueAsyncFollower\<close> with \<^verbatim>\<open>setImmediate\<close>. The function gives the follower; its
  callers put the follower's position at the end of \<open>immediates\<close>.
\<close>

definition wakeAsyncFollower :: "Follower \<Rightarrow> error + Follower" where
  "wakeAsyncFollower follower =
     (if state follower \<noteq> Some Sleeping then Inl NotSleeping
      else Inr (follower\<lparr>state := Some Running\<rparr>))"

text \<open>
  The loop of \<^verbatim>\<open>getDocsSinceLocalIndex\<close>: \<open>ii\<close> runs from \<open>start\<close> to the highest
  local index, \<open>docs\<close> is the array built so far.
\<close>

function getDocsLoop :: "Bowl \<Rightarrow> nat option \<Rightarrow> LocalIndex \<Rightarrow> Doc list \<Rightarrow> Doc list" where
  "getDocsLoop b lim ii docs =
     (if ii \<le> highestLocalIndex b then
        (let docs' = (case map_of (docWithLocalIndex b) ii of
                        Some d \<Rightarrow> docs @ [d]
                      | None \<Rightarrow> docs)
         in if lim = Some (length docs') then docs'
            else getDocsLoop b lim (ii + 1) docs')
      else docs)"
  by pat_completeness auto
termination
  by (relation "measure (\<lambda>(b, lim, ii, docs). Suc (highestLocalIndex b) - ii)") auto

declare getDocsLoop.simps [simp del]

definition getDocsSinceLocalIndex :: "Bowl \<Rightarrow> LocalIndex \<Rightarrow> nat option \<Rightarrow> Doc list" where
  "getDocsSinceLocalIndex b start lim = getDocsLoop b lim start []"

text \<open>
  \<^verbatim>\<open>addFollower\<close>. The follower is a new object, so it goes last in the set. A sync
  follower is called with every document \<^verbatim>\<open>getDocsSinceLocalIndex\<close> returns; an async
  one is woken (it sleeps at that point, so \<^verbatim>\<open>wakeAsyncFollower\<close> does not throw). The
  unsubscribe function that the source returns is not modelled.
\<close>

definition addFollower :: "Bowl \<Rightarrow> Follower \<Rightarrow> Bowl" where
  "addFollower b follower =
     (let follower1 = follower\<lparr>state := Some Sleeping\<rparr>
      in if kind follower1 = Sync then
           b\<lparr>followers := followers b @
                [follower1\<lparr>cb_calls := cb_calls follower1 @
                              getDocsSinceLocalIndex b (nextIndex follower1) None,
                            state := Some Sleeping\<rparr>]\<rparr>
         else
           (case wakeAsyncFollower follower1 of
              Inr follower2 \<Rightarrow>
                b\<lparr>followers := followers b @ [follower2],
                  immediates := immediates b @ [length (followers b)]\<rparr>
            | Inl e \<Rightarrow> b\<lparr>followers := followers b @ [follower1]\<rparr>))"

text \<open>
  \<^verbatim>\<open>continueAsyncFollower\<close> for the follower at position \<open>i\<close>. The callback is awaited
  for each document of the batch; the batch is taken before the first call, so what the
  follower is called with does not depend on what runs in between, and the batch is one
  step here. A position outside the set stands for no follower, and nothing happens.
\<close>

definition continueAsyncFollower :: "nat \<Rightarrow> Bowl \<Rightarrow> error + Bowl" where
  "continueAsyncFollower i b =
     (if length (followers b) \<le> i then Inr b
      else
        let follower = followers b ! i
        in if state follower = Some Quitting then Inr b
           else if state follower = Some Sleeping then Inl NotRunning
           else if nextIndex follower > highestLocalIndex b then
             Inr (b\<lparr>followers := (followers b)[i := follower\<lparr>state := Some Sleeping\<rparr>]\<rparr>)
           else
             let docs = getDocsSinceLocalIndex b (nextIndex follower) (Some 40)
             in Inr (b\<lparr>followers :=
                          (followers b)[i := follower\<lparr>cb_calls := cb_calls follower @ docs\<rparr>],
                        immediates := immediates b @ [i]\<rparr>))"

text \<open>The event loop runs the oldest pending \<^verbatim>\<open>setImmediate\<close> callback.\<close>

definition runImmediate :: "Bowl \<Rightarrow> error + Bowl" where
  "runImmediate b =
     (case immediates b of
        [] \<Rightarrow> Inr b
      | i # rest \<Rightarrow> continueAsyncFollower i (b\<lparr>immediates := rest\<rparr>))"

definition onWrite :: "Bowl \<Rightarrow> Bowl" where
  "onWrite b = b\<lparr>onWriteCbs := onWriteCbs b @ [[]]\<rparr>"

subsection \<open>Reading\<close>

definition getAllDocs :: "Bowl \<Rightarrow> bool \<Rightarrow> Doc list" where
  "getAllDocs b doSort =
     (let docs = map snd (docWithLocalIndex b)
      in if doSort then array_sort docComparePathThenNewestFirst docs else docs)"

text \<open>
  \<^verbatim>\<open>getLatestDocs\<close> takes element 0 of every array of \<open>docsByPathNewestFirst\<close>. An empty
  array would give \<^verbatim>\<open>undefined\<close>; no bowl of a run has an empty array (lemma
  \<open>arrays_nonempty\<close> below), and the model leaves such an entry out.
\<close>

definition getLatestDocs :: "Bowl \<Rightarrow> bool \<Rightarrow> Doc list" where
  "getLatestDocs b doSort =
     (let docs = concat (map (\<lambda>(p, docArray). take 1 docArray) (docsByPathNewestFirst b))
      in if doSort then array_sort (keyComparer (\<lambda>d. Some (path d))) docs else docs)"

definition getAllDocsAtPath :: "Bowl \<Rightarrow> Path \<Rightarrow> Doc list option" where
  "getAllDocsAtPath b p = map_of (docsByPathNewestFirst b) p"

definition getLatestDocAtPath :: "Bowl \<Rightarrow> Path \<Rightarrow> Doc option" where
  "getLatestDocAtPath b p =
     (case map_of (docsByPathNewestFirst b) p of
        None \<Rightarrow> None
      | Some docs \<Rightarrow> (case docs of [] \<Rightarrow> None | d # rest \<Rightarrow> Some d))"

text \<open>
  Whether the loop of \<^verbatim>\<open>queryDocs\<close> skips a document because of \<^verbatim>\<open>startAt\<close>;
  \<^verbatim>\<open>doc._localIndex || 0\<close> is \<open>0\<close> for a document without a local index.
\<close>

definition beforeStartAt :: "OrderBy \<Rightarrow> StartAt option \<Rightarrow> Doc \<Rightarrow> bool" where
  "beforeStartAt ord sa d =
     (case sa of
        None \<Rightarrow> False
      | Some s \<Rightarrow>
          (case ord of
             PathASC \<Rightarrow> (case startAt_path s of Some p \<Rightarrow> path d < p | None \<Rightarrow> False)
           | PathDESC \<Rightarrow> (case startAt_path s of Some p \<Rightarrow> p < path d | None \<Rightarrow> False)
           | LocalIndexASC \<Rightarrow>
               (case startAt_localIndex s of
                  Some i \<Rightarrow> (case localIndex d of Some j \<Rightarrow> j | None \<Rightarrow> 0) < i
                | None \<Rightarrow> False)
           | LocalIndexDESC \<Rightarrow>
               (case startAt_localIndex s of
                  Some i \<Rightarrow> i < (case localIndex d of Some j \<Rightarrow> j | None \<Rightarrow> 0)
                | None \<Rightarrow> False)))"

fun queryLoop ::
  "OrderBy \<Rightarrow> StartAt option \<Rightarrow> QueryFilter option \<Rightarrow> nat option \<Rightarrow> Doc list \<Rightarrow> Doc list
   \<Rightarrow> Doc list" where
  "queryLoop ord sa flt lim [] filteredDocs = filteredDocs"
| "queryLoop ord sa flt lim (d # docs) filteredDocs =
     (if beforeStartAt ord sa d then queryLoop ord sa flt lim docs filteredDocs
      else if (case flt of Some f \<Rightarrow> \<not> docMatchesFilter d f | None \<Rightarrow> False)
        then queryLoop ord sa flt lim docs filteredDocs
      else
        let filteredDocs' = filteredDocs @ [d]
        in if (case lim of Some l \<Rightarrow> l \<le> length filteredDocs' | None \<Rightarrow> False)
           then filteredDocs'
           else queryLoop ord sa flt lim docs filteredDocs')"

text \<open>
  \<^verbatim>\<open>queryDocs(query?)\<close>: the query that is left out is \<open>None\<close>; the defaults of
  \<^verbatim>\<open>defaultQuery\<close> are \<^verbatim>\<open>history: 'latest'\<close> and \<^verbatim>\<open>orderBy: 'path ASC'\<close>.
\<close>

definition queryDocs :: "Bowl \<Rightarrow> Query option \<Rightarrow> Doc list" where
  "queryDocs b query0 =
     (let query = (case query0 of None \<Rightarrow> emptyQuery | Some q \<Rightarrow> q);
          hist = (case history query of None \<Rightarrow> HistoryLatest | Some h \<Rightarrow> h);
          ord = (case orderBy query of None \<Rightarrow> PathASC | Some ob \<Rightarrow> ob);
          docs0 = (if hist = HistoryAll then getAllDocs b False else getLatestDocs b False);
          docs1 = (if ord = PathASC \<or> ord = PathDESC
                   then array_sort docComparePathThenNewestFirst docs0
                   else array_sort (keyComparer localIndex) docs0);
          docs2 = (if ord = PathDESC \<or> ord = LocalIndexDESC then rev docs1 else docs1)
      in queryLoop ord (startAt query) (queryFilter query) (limit query) docs2 [])"

text \<open>\<^verbatim>\<open>deepEqual(query, {})\<close> holds of the query with no property.\<close>

definition queryPaths :: "Bowl \<Rightarrow> Query option \<Rightarrow> Path list" where
  "queryPaths b query =
     (let paths = (if query = None \<or> query = Some emptyQuery
                   then map fst (docsByPathNewestFirst b)
                   else new_Set (map path (queryDocs b query)));
          paths' = array_sort baseCompare paths
      in if (case query of Some q \<Rightarrow> orderBy q = Some PathDESC | None \<Rightarrow> False)
         then rev paths' else paths')"

subsection \<open>Writing\<close>

text \<open>
  What \<^verbatim>\<open>write\<close> reads from outside the bowl: the clock \<^verbatim>\<open>now()\<close>, the value of
  \<^verbatim>\<open>fakeUuid()\<close> and the function \<^verbatim>\<open>fakeHash\<close> of \<^verbatim>\<open>./utils\<close>.
\<close>

record Env =
  now :: Timestamp
  fakeUuid :: string
  fakeHash :: "string \<Rightarrow> string"

text \<open>
  The loop of \<^verbatim>\<open>upsert\<close> over the followers, for the document \<open>d\<close> stored under the
  local index \<open>h\<close>; \<open>i\<close> is the position of the first follower of the list. The result
  is the followers after the loop and the positions of the async followers it woke. A
  follower is woken only when it sleeps, where \<^verbatim>\<open>wakeAsyncFollower\<close> does not throw.
\<close>

fun updateFollowers ::
  "LocalIndex \<Rightarrow> Doc \<Rightarrow> nat \<Rightarrow> Follower list \<Rightarrow> Follower list \<times> nat list" where
  "updateFollowers h d i [] = ([], [])"
| "updateFollowers h d i (follower # rest) =
     (let (rest', woken) = updateFollowers h d (i + 1) rest
      in if kind follower = Sync then
           (follower\<lparr>nextIndex := h + 1, cb_calls := cb_calls follower @ [d]\<rparr> # rest', woken)
         else if state follower = Some Sleeping then
           (case wakeAsyncFollower follower of
              Inr follower' \<Rightarrow> (follower' # rest', i # woken)
            | Inl e \<Rightarrow> (follower # rest', woken))
         else (follower # rest', woken))"

text \<open>
  \<^verbatim>\<open>existingDocsSamePath.push(doc)\<close> and the sort of the array. The test
  \<^verbatim>\<open>existingDocsSamePath[0] === doc\<close> that follows compares references, and the array may
  hold another object with the same properties; so every element of the sorted array
  comes with the mark of the object that was pushed.
\<close>

definition pushAndSort :: "Doc list \<Rightarrow> Doc \<Rightarrow> (Doc \<times> bool) list" where
  "pushAndSort docs d =
     array_sort (\<lambda>a b. docComparePathThenNewestFirst (fst a) (fst b))
       (map (\<lambda>x. (x, False)) docs @ [(d, True)])"

text \<open>
  \<^verbatim>\<open>upsert\<close> returns its result or throws; it also sets \<^verbatim>\<open>_localIndex\<close> in the document
  it was given, freezes it and changes the bowl, so the model returns the result or the
  error, the document after the call and the bowl after the call.

  A document that wins is pushed onto the array of its path, the array is sorted, and
  \<open>highestLocalIndex\<close> is incremented; then \<^verbatim>\<open>doc._localIndex\<close> is assigned. When the
  document is frozen the assignment throws a \<^verbatim>\<open>TypeError\<close>: the counter has been
  incremented, an array that was in \<open>docsByPathNewestFirst\<close> already holds the document
  (a new array is lost, since \<^verbatim>\<open>set\<close> has not been reached), and nothing else has
  happened.

  Otherwise the document is one object in all three indexes: the local index that is
  set after the array was sorted is in the array as well, and \<open>d'\<close> is the document
  with its local index, frozen; the comparator of the sort reads neither field.
\<close>

definition upsert :: "Bowl \<Rightarrow> Doc \<Rightarrow> (error + UpsertResult) \<times> Doc \<times> Bowl" where
  "upsert b d =
     (if \<not> docIsValid d then (Inr Invalid, d, b)
      else
        let pathAndAuthor = combinePathAndAuthor d;
            existingDocSameAuthor = map_of (docWithPathAndAuthor b) pathAndAuthor;
            docComp = map_option (docCompareForOverwrite d) existingDocSameAuthor
        in if docComp = Some LT then (Inr Obsolete, d, b)
           else if docComp = Some EQ then (Inr AlreadyHadIt, d, b)
           else
             let h = highestLocalIndex b + 1
             in if frozen d then
                  (Inl TypeError, d,
                   b\<lparr>highestLocalIndex := h,
                     docsByPathNewestFirst :=
                       (case map_of (docsByPathNewestFirst b) (path d) of
                          None \<Rightarrow> docsByPathNewestFirst b
                        | Some docs \<Rightarrow>
                            AList.update (path d) (map fst (pushAndSort docs d))
                              (docsByPathNewestFirst b))\<rparr>)
                else
                  let d' = d\<lparr>localIndex := Some h, frozen := True\<rparr>;
                      sortedDocs =
                        pushAndSort
                          (case map_of (docsByPathNewestFirst b) (path d) of
                             None \<Rightarrow> []
                           | Some docs \<Rightarrow> docs) d';
                      existingDocsSamePath = map fst sortedDocs;
                      latest = (case sortedDocs of [] \<Rightarrow> False | x # rest \<Rightarrow> snd x);
                      upsertResult =
                        (if latest then AcceptedAndLatest else AcceptedButNotLatest);
                      previousLatest =
                        (if latest
                         then (case existingDocsSamePath of
                                 x # y # rest \<Rightarrow> Some y
                               | _ \<Rightarrow> None)
                         else None);
                      event = \<lparr>doc = d', isLatest = latest,
                               previousDocSameAuthor = existingDocSameAuthor,
                               previousLatestDoc = previousLatest\<rparr>;
                      (followers', woken) = updateFollowers h d' 0 (followers b)
                  in (Inr upsertResult, d',
                      b\<lparr>highestLocalIndex := h,
                        docWithLocalIndex := AList.update h d' (docWithLocalIndex b),
                        docsByPathNewestFirst :=
                          AList.update (path d) existingDocsSamePath (docsByPathNewestFirst b),
                        docWithPathAndAuthor :=
                          AList.update pathAndAuthor d' (docWithPathAndAuthor b),
                        onWriteCbs := map (\<lambda>calls. calls @ [event]) (onWriteCbs b),
                        followers := followers',
                        immediates := immediates b @ woken\<rparr>))"

text \<open>
  \<^verbatim>\<open>Bowl.write\<close>, named \<open>writeDoc\<close> here. \<^verbatim>\<open>Buffer.byteLength(content)\<close> is the
  length of the string (its characters are bytes). The document is a new object, which
  is not frozen.
\<close>

definition writeDoc ::
  "Env \<Rightarrow> Bowl \<Rightarrow> AuthorKeypair \<Rightarrow> DocToWrite \<Rightarrow> (error + UpsertResult) \<times> Doc \<times> Bowl" where
  "writeDoc env b keypair docToWrite =
     (let existingDocSamePath = getLatestDocAtPath b (toWrite_path docToWrite);
          d = \<lparr>path = toWrite_path docToWrite,
               timestamp = (case existingDocSamePath of
                              None \<Rightarrow> now env
                            | Some e \<Rightarrow> timestamp e + 1),
               author = address keypair,
               content = toWrite_content docToWrite,
               contentHash = fakeHash env (toWrite_content docToWrite),
               contentLength = int (length (toWrite_content docToWrite)),
               signature = ''?'',
               localIndex = None,
               frozen = False\<rparr>
      in upsert b (signDoc (fakeUuid env) keypair d))"

subsection \<open>Runs of a bowl\<close>

text \<open>
  A run is a list of calls on one bowl, oldest first. \<open>RunImmediate\<close> is one turn of
  the event loop; when \<^verbatim>\<open>continueAsyncFollower\<close> throws there, the promise it returned
  is rejected and the bowl stays as it is (the callback has left the queue). A turn
  changes followers and the queue only, so the documents of the bowl depend on the
  calls of \<^verbatim>\<open>upsert\<close> and \<^verbatim>\<open>write\<close> and their order alone. When a call of \<^verbatim>\<open>upsert\<close>
  throws, its caller has the error, and the run goes on with the bowl as the call has
  left it. The document of an \<open>Upsert\<close> is the object as it is handed over: an object
  that a bowl has stored is handed over as the document after that call, with its local
  index and frozen.
\<close>

datatype Call =
  Upsert Doc
| Write Env AuthorKeypair DocToWrite
| AddFollower Follower
| OnWrite
| RunImmediate

text \<open>
  The outcome of a call of \<^verbatim>\<open>upsert\<close> or \<^verbatim>\<open>write\<close> is its result, or the error it
  threw, and the document after the call; the other calls have no outcome.
\<close>

definition step :: "Bowl \<Rightarrow> Call \<Rightarrow> ((error + UpsertResult) \<times> Doc) option \<times> Bowl" where
  "step b c =
     (case c of
        Upsert d \<Rightarrow> (case upsert b d of (r, d', b') \<Rightarrow> (Some (r, d'), b'))
      | Write env keypair docToWrite \<Rightarrow>
          (case writeDoc env b keypair docToWrite of (r, d', b') \<Rightarrow> (Some (r, d'), b'))
      | AddFollower follower \<Rightarrow> (None, addFollower b follower)
      | OnWrite \<Rightarrow> (None, onWrite b)
      | RunImmediate \<Rightarrow>
          (None, case runImmediate b of
                   Inr b' \<Rightarrow> b'
                 | Inl e \<Rightarrow> b\<lparr>immediates := tl (immediates b)\<rparr>))"

fun run :: "Bowl \<Rightarrow> Call list \<Rightarrow> ((error + UpsertResult) \<times> Doc) list \<times> Bowl" where
  "run b [] = ([], b)"
| "run b (c # cs) =
     (case step b c of
        (out, b') \<Rightarrow>
          (case run b' cs of
             (outs, b'') \<Rightarrow> ((case out of None \<Rightarrow> [] | Some x \<Rightarrow> [x]) @ outs, b'')))"

text \<open>The call returned a result with a positive number: the document was saved.\<close>

definition saved :: "error + UpsertResult \<Rightarrow> bool" where
  "saved r = (r = Inr AcceptedButNotLatest \<or> r = Inr AcceptedAndLatest)"

text \<open>The local indexes that the calls of a run assigned, in the order of the calls.\<close>

definition assignedIndexes ::
  "((error + UpsertResult) \<times> Doc) list \<Rightarrow> LocalIndex option list" where
  "assignedIndexes outs = map (\<lambda>(r, d). localIndex d) (filter (\<lambda>(r, d). saved r) outs)"

text \<open>No call of \<^verbatim>\<open>upsert\<close> in the run is given a frozen document.\<close>

fun unfrozenCalls :: "Call list \<Rightarrow> bool" where
  "unfrozenCalls [] = True"
| "unfrozenCalls (Upsert d # cs) = (\<not> frozen d \<and> unfrozenCalls cs)"
| "unfrozenCalls (c # cs) = unfrozenCalls cs"

subsection \<open>Notions of the specification\<close>

text \<open>
  The overwrite key of \<open>e\<close> is strictly higher than the one of \<open>d\<close>: the timestamp
  decides, the signature breaks a tie.
\<close>

definition overwriteKeyLess :: "Doc \<Rightarrow> Doc \<Rightarrow> bool" where
  "overwriteKeyLess d e =
     (timestamp d < timestamp e \<or> (timestamp d = timestamp e \<and> signature d < signature e))"

text \<open>
  The new document wins over the document of the same author at the same path, or there
  is none: the condition under which \<^verbatim>\<open>upsert\<close> goes on to save it.
\<close>

definition wins :: "Bowl \<Rightarrow> Doc \<Rightarrow> bool" where
  "wins b d =
     (case map_of (docWithPathAndAuthor b) (combinePathAndAuthor d) of
        None \<Rightarrow> True
      | Some e \<Rightarrow> docCompareForOverwrite d e = GT)"

text \<open>The document \<open>d\<close> as a bowl stores it under the local index \<open>h\<close>.\<close>

definition storedAs :: "LocalIndex \<Rightarrow> Doc \<Rightarrow> Doc" where
  "storedAs h d = d\<lparr>localIndex := Some h, frozen := True\<rparr>"

text \<open>
  Two documents have the same path, timestamp and signature: what the comparator of the
  arrays reads.
\<close>

definition sameKey :: "Doc \<Rightarrow> Doc \<Rightarrow> bool" where
  "sameKey e d = (path e = path d \<and> timestamp e = timestamp d \<and> signature e = signature d)"

text \<open>
  Documents of the list that have one signature have one timestamp. On such documents
  of one path \<^verbatim>\<open>docComparePathThenNewestFirst\<close> is consistent: it is the order of the
  timestamps, the higher one first.
\<close>

definition signaturesAgree :: "Doc list \<Rightarrow> bool" where
  "signaturesAgree docs =
     list_all (\<lambda>x. list_all (\<lambda>y. signature x = signature y \<longrightarrow> timestamp x = timestamp y) docs)
       docs"

text \<open>The timestamps of the list do not increase.\<close>

definition newestFirst :: "Doc list \<Rightarrow> bool" where
  "newestFirst docs = sorted_wrt (\<lambda>x y. timestamp y \<le> timestamp x) docs"

text \<open>\<^verbatim>\<open>sortedUnique\<close> of the spec: the distinct elements in ascending order.\<close>

definition sortedUnique :: "string list \<Rightarrow> string list" where
  "sortedUnique xs = sort (remdups xs)"

text \<open>
  What every bowl of a run satisfies: the keys of the path index are distinct, no array
  is empty, an array holds documents of its path only, and a document of the index by
  path and author is stored under its own key.
\<close>

definition indexesOk :: "Bowl \<Rightarrow> bool" where
  "indexesOk b =
     (distinct (map fst (docsByPathNewestFirst b)) \<and>
      list_all (\<lambda>(p, docs). docs \<noteq> [] \<and> list_all (\<lambda>x. path x = p) docs)
        (docsByPathNewestFirst b) \<and>
      list_all (\<lambda>(k, e). k = combinePathAndAuthor e) (docWithPathAndAuthor b))"

text \<open>
  What every bowl of a run satisfies, second part: the keys of the index by local index
  are in ascending order and lie between 1 and \<open>highestLocalIndex\<close>; for a document of
  that index, the index by path and author holds under the document's key the document
  itself or one with a strictly higher overwrite key; and a document of the index by
  path and author is a document of the index by local index.
\<close>

definition retainedOk :: "Bowl \<Rightarrow> bool" where
  "retainedOk b =
     (sorted_wrt (<) (map fst (docWithLocalIndex b)) \<and>
      list_all (\<lambda>i. 1 \<le> i \<and> i \<le> highestLocalIndex b) (map fst (docWithLocalIndex b)) \<and>
      list_all (\<lambda>(i, e).
          (case map_of (docWithPathAndAuthor b) (combinePathAndAuthor e) of
             Some e' \<Rightarrow> e' = e \<or> overwriteKeyLess e e'
           | None \<Rightarrow> False))
        (docWithLocalIndex b) \<and>
      list_all (\<lambda>(k, e'). e' \<in> set (map snd (docWithLocalIndex b)))
        (docWithPathAndAuthor b))"

text \<open>Every array whose signatures agree is in the order \<open>newestFirst\<close>.\<close>

definition arraysSorted :: "Bowl \<Rightarrow> bool" where
  "arraysSorted b =
     list_all (\<lambda>(p, docs). signaturesAgree docs \<longrightarrow> newestFirst docs)
       (docsByPathNewestFirst b)"

text \<open>Two bowls hold the same documents: they differ in callbacks and followers only.\<close>

definition sameDocs :: "Bowl \<Rightarrow> Bowl \<Rightarrow> bool" where
  "sameDocs b b' = (highestLocalIndex b' = highestLocalIndex b \<and>
      docWithLocalIndex b' = docWithLocalIndex b \<and>
      docWithPathAndAuthor b' = docWithPathAndAuthor b \<and>
      docsByPathNewestFirst b' = docsByPathNewestFirst b)"

text \<open>A document made by hand, for the scenarios; it is not frozen.\<close>

definition exampleDoc :: "Path \<Rightarrow> Timestamp \<Rightarrow> AuthorAddress \<Rightarrow> Signature \<Rightarrow> Doc" where
  "exampleDoc p t a s =
     \<lparr>path = p, timestamp = t, author = a, content = ''x'', contentHash = ''hx'',
      contentLength = 1, signature = s, localIndex = None, frozen = False\<rparr>"

text \<open>Of two local indexes the first is the smaller one.\<close>

definition indexLess :: "LocalIndex option \<Rightarrow> LocalIndex option \<Rightarrow> bool" where
  "indexLess x y = (case (x, y) of (Some i, Some j) \<Rightarrow> i < j | _ \<Rightarrow> False)"

text \<open>
  What every bowl of a run satisfies, third part: a document of the index by local
  index has the local index it is stored under.
\<close>

definition keyedOk :: "Bowl \<Rightarrow> bool" where
  "keyedOk b = list_all (\<lambda>(i, e). localIndex e = Some i) (docWithLocalIndex b)"

text \<open>
  The followers of a bowl: a pending turn is for an async follower of the bowl, and a
  sync follower has been called with the documents of the index by local index from
  some local index on, in ascending order.
\<close>

definition followersOk :: "Bowl \<Rightarrow> bool" where
  "followersOk b =
     (list_all (\<lambda>i. i < length (followers b) \<and> kind (followers b ! i) = Async) (immediates b) \<and>
      list_all (\<lambda>f. kind f = Sync \<longrightarrow>
          (\<exists>m. map localIndex (cb_calls f) =
                 map Some (filter (\<lambda>i. m \<le> i) (map fst (docWithLocalIndex b)))))
        (followers b))"

text \<open>The followers that a run registers have not been called before.\<close>

fun freshFollowers :: "Call list \<Rightarrow> bool" where
  "freshFollowers [] = True"
| "freshFollowers (AddFollower f # cs) = (cb_calls f = [] \<and> freshFollowers cs)"
| "freshFollowers (c # cs) = freshFollowers cs"

text \<open>What the loop of \<^verbatim>\<open>upsert\<close> over the followers does to one follower.\<close>

definition afterUpsert :: "LocalIndex \<Rightarrow> Doc \<Rightarrow> Follower \<Rightarrow> Follower" where
  "afterUpsert h d f =
     (if kind f = Sync then f\<lparr>nextIndex := h + 1, cb_calls := cb_calls f @ [d]\<rparr>
      else if state f = Some Sleeping then f\<lparr>state := Some Running\<rparr> else f)"

text \<open>The filter with no property, and the outside world of a call of \<^verbatim>\<open>write\<close>.\<close>

definition emptyFilter :: QueryFilter where
  "emptyFilter =
     \<lparr>filter_path = None, filter_pathStartsWith = None, filter_pathEndsWith = None,
      filter_author = None, filter_timestamp = None, filter_timestampGt = None,
      filter_timestampLt = None, filter_contentLength = None,
      filter_contentLengthGt = None, filter_contentLengthLt = None\<rparr>"

definition exampleEnv :: "Timestamp \<Rightarrow> string \<Rightarrow> Env" where
  "exampleEnv t u = \<lparr>now = t, fakeUuid = u, fakeHash = (\<lambda>c. ''hash:'' @ c)\<rparr>"

definition exampleFollower :: "FollowerKind \<Rightarrow> LocalIndex \<Rightarrow> Follower" where
  "exampleFollower k n = \<lparr>cb_calls = [], nextIndex = n, kind = k, state = None\<rparr>"

section \<open>Properties\<close>

subsection \<open>The comparators and the sort\<close>

lemma baseCompare_LT: "baseCompare a b = LT \<longleftrightarrow> a < b"
  by (simp add: baseCompare_def)
lemma baseCompare_EQ: "baseCompare a b = EQ \<longleftrightarrow> a = b"
  by (auto simp: baseCompare_def)
lemma baseCompare_GT: "baseCompare a b = GT \<longleftrightarrow> b < a"
  by (auto simp: baseCompare_def)

lemma arrayCompare_LT:
  "arrayCompare (a1, a2) (b1, b2) = LT \<longleftrightarrow> a1 < b1 \<or> (a1 = b1 \<and> a2 < b2)"
  by (auto simp: arrayCompare_def baseCompare_def split: Cmp.splits if_splits)
lemma arrayCompare_EQ:
  "arrayCompare (a1, a2) (b1, b2) = EQ \<longleftrightarrow> a1 = b1 \<and> a2 = b2"
  by (auto simp: arrayCompare_def baseCompare_def split: Cmp.splits if_splits)
lemma arrayCompare_GT:
  "arrayCompare (a1, a2) (b1, b2) = GT \<longleftrightarrow> b1 < a1 \<or> (a1 = b1 \<and> b2 < a2)"
  by (auto simp: arrayCompare_def baseCompare_def split: Cmp.splits if_splits)

lemma mset_binaryInsert: "mset (binaryInsert cmp xs p) = add_mset p (mset xs)"
proof -
  have "mset (take n xs @ p # drop n xs) = add_mset p (mset (take n xs @ drop n xs))" for n
    by (simp del: append_take_drop_id)
  then show ?thesis by (simp add: binaryInsert_def Let_def)
qed

lemma mset_foldl_binaryInsert:
  "mset (foldl (binaryInsert cmp) acc ys) = mset acc + mset ys"
  by (induction ys arbitrary: acc) (simp_all add: mset_binaryInsert)

lemma mset_take_drop: "mset (take n xs) + mset (drop n xs) = mset xs"
  by (metis append_take_drop_id mset_append)

lemma mset_sort_run:
  "mset (foldl (binaryInsert cmp) (if d then rev (take n xs) else take n xs) (drop n xs)) =
     mset xs"
  by (simp add: mset_foldl_binaryInsert mset_take_drop)

lemma mset_array_sort: "mset (array_sort cmp xs) = mset xs"
proof (cases xs)
  case Nil
  then show ?thesis by (simp add: array_sort_def)
next
  case (Cons x ys)
  show ?thesis
  proof (cases ys)
    case Nil
    then show ?thesis using Cons by (simp add: array_sort_def)
  next
    case (Cons y rest)
    have "array_sort cmp xs =
        foldl (binaryInsert cmp)
          (if cmp y x = LT then rev (take (2 + countRun cmp (cmp y x = LT) y rest) xs)
           else take (2 + countRun cmp (cmp y x = LT) y rest) xs)
          (drop (2 + countRun cmp (cmp y x = LT) y rest) xs)"
      unfolding array_sort_def Let_def \<open>xs = x # ys\<close> Cons list.case ..
    then show ?thesis by (simp only: mset_sort_run)
  qed
qed

lemma set_array_sort: "set (array_sort cmp xs) = set xs"
  using mset_array_sort [of cmp xs] by (metis set_mset_mset)

lemma length_array_sort: "length (array_sort cmp xs) = length xs"
  using mset_array_sort [of cmp xs] by (metis size_mset)

lemma distinct_array_sort: "distinct (array_sort cmp xs) = distinct xs"
  using mset_array_sort [of cmp xs] by (metis mset_eq_imp_distinct_iff)

lemma array_sort_eq_Nil: "array_sort cmp xs = [] \<longleftrightarrow> xs = []"
  using length_array_sort [of cmp xs] by (metis length_0_conv)

lemma array_sort_Nil: "array_sort cmp [] = []"
  by (simp add: array_sort_def)

lemma array_sort_single: "array_sort cmp [x] = [x]"
  by (simp add: array_sort_def)

lemma array_sort_two:
  "array_sort cmp [x, y] = (if cmp y x = LT then [y, x] else [x, y])"
  by (simp add: array_sort_def)

lemma sorted_map_nth:
  "sorted (map k xs) \<Longrightarrow> i \<le> j \<Longrightarrow> j < length xs \<Longrightarrow> k (xs ! i) \<le> k (xs ! j)"
  using sorted_nth_mono [of "map k xs" i j] by simp

lemma binarySearch_bounds:
  assumes srt: "sorted (map k xs)"
    and ind: "\<And>y. y \<in> set xs \<Longrightarrow> cmp p y = LT \<longleftrightarrow> k p < k y"
  shows "left \<le> right \<Longrightarrow> right \<le> length xs \<Longrightarrow>
     (\<forall>i<left. k (xs ! i) \<le> k p) \<Longrightarrow>
     (\<forall>i. right \<le> i \<and> i < length xs \<longrightarrow> k p < k (xs ! i)) \<Longrightarrow>
     binarySearch cmp p xs left right \<le> length xs \<and>
     (\<forall>i<binarySearch cmp p xs left right. k (xs ! i) \<le> k p) \<and>
     (\<forall>i. binarySearch cmp p xs left right \<le> i \<and> i < length xs \<longrightarrow> k p < k (xs ! i))"
proof (induction "right - left" arbitrary: left right rule: less_induct)
  case less
  note lr = less.prems(1) and rl = less.prems(2) and lo = less.prems(3) and hi = less.prems(4)
  show ?case
  proof (cases "left < right")
    case False
    then have e: "binarySearch cmp p xs left right = left"
      by (subst binarySearch.simps) simp
    from False lr have "left = right" by simp
    then show ?thesis unfolding e using rl lo hi by blast
  next
    case True
    define mid where "mid = left + (right - left) div 2"
    have m: "left \<le> mid" "mid < right" "mid < length xs"
      using True rl by (simp_all add: mid_def)
    have mem: "xs ! mid \<in> set xs" using m(3) by simp
    show ?thesis
    proof (cases "cmp p (xs ! mid) = LT")
      case lt: True
      have e: "binarySearch cmp p xs left right = binarySearch cmp p xs left mid"
        by (subst binarySearch.simps) (simp add: True lt Let_def flip: mid_def)
      have pm: "k p < k (xs ! mid)" using ind [OF mem] lt by simp
      have hi': "\<forall>i. mid \<le> i \<and> i < length xs \<longrightarrow> k p < k (xs ! i)"
      proof (intro allI impI)
        fix i assume "mid \<le> i \<and> i < length xs"
        then have "k (xs ! mid) \<le> k (xs ! i)" using sorted_map_nth [OF srt] by blast
        with pm show "k p < k (xs ! i)" by simp
      qed
      have d: "mid - left < right - left" using m by simp
      have rl': "mid \<le> length xs" using m(3) by simp
      show ?thesis unfolding e by (rule less.hyps [OF d m(1) rl' lo hi'])
    next
      case ge: False
      have e: "binarySearch cmp p xs left right = binarySearch cmp p xs (mid + 1) right"
        by (subst binarySearch.simps) (simp add: True ge Let_def flip: mid_def)
      have pm: "k (xs ! mid) \<le> k p" using ind [OF mem] ge by simp
      have lo': "\<forall>i<mid + 1. k (xs ! i) \<le> k p"
      proof (intro allI impI)
        fix i assume "i < mid + 1"
        then have "i \<le> mid" by simp
        then have "k (xs ! i) \<le> k (xs ! mid)" using sorted_map_nth [OF srt _ m(3)] by blast
        with pm show "k (xs ! i) \<le> k p" by simp
      qed
      have d: "right - (mid + 1) < right - left" using m by simp
      have lr': "mid + 1 \<le> right" using m(2) by simp
      show ?thesis unfolding e by (rule less.hyps [OF d lr' rl lo' hi])
    qed
  qed
qed

lemma binaryInsert_split:
  assumes srt: "sorted (map k xs)"
    and ind: "\<And>y. y \<in> set xs \<Longrightarrow> cmp p y = LT \<longleftrightarrow> k p < k y"
  obtains r where "binaryInsert cmp xs p = take r xs @ p # drop r xs"
    and "\<forall>x\<in>set (take r xs). k x \<le> k p" and "\<forall>y\<in>set (drop r xs). k p < k y"
proof -
  define r where "r = binarySearch cmp p xs 0 (length xs)"
  have b: "r \<le> length xs \<and> (\<forall>i<r. k (xs ! i) \<le> k p) \<and>
     (\<forall>i. r \<le> i \<and> i < length xs \<longrightarrow> k p < k (xs ! i))"
    unfolding r_def
    by (rule binarySearch_bounds [where k = k and xs = xs and cmp = cmp and p = p, OF srt ind])
       auto
  have t: "\<forall>x\<in>set (take r xs). k x \<le> k p"
  proof
    fix x assume "x \<in> set (take r xs)"
    then obtain i where "i < length (take r xs)" "take r xs ! i = x"
      by (auto simp: in_set_conv_nth)
    then have "i < r" "x = xs ! i" by simp_all
    then show "k x \<le> k p" using b by blast
  qed
  have d: "\<forall>y\<in>set (drop r xs). k p < k y"
  proof
    fix y assume "y \<in> set (drop r xs)"
    then obtain i where i: "i < length (drop r xs)" "drop r xs ! i = y"
      by (auto simp: in_set_conv_nth)
    then have "r + i < length xs" "y = xs ! (r + i)" using b by simp_all
    then show "k p < k y" using b by (metis le_add1)
  qed
  have "binaryInsert cmp xs p = take r xs @ p # drop r xs"
    by (simp add: binaryInsert_def Let_def flip: r_def)
  then show thesis using t d by (rule that)
qed

lemma sorted_binaryInsert:
  assumes srt: "sorted (map k xs)"
    and ind: "\<And>y. y \<in> set xs \<Longrightarrow> cmp p y = LT \<longleftrightarrow> k p < k y"
  shows "sorted (map k (binaryInsert cmp xs p))"
proof -
  from binaryInsert_split [of k xs cmp p, OF srt ind]
  obtain r where e: "binaryInsert cmp xs p = take r xs @ p # drop r xs"
    and t: "\<forall>x\<in>set (take r xs). k x \<le> k p" and d: "\<forall>y\<in>set (drop r xs). k p < k y"
    by blast
  have s: "sorted (map k (take r xs @ drop r xs))" using srt by simp
  then have s1: "sorted (map k (take r xs))" and s2: "sorted (map k (drop r xs))"
    and s3: "\<forall>x\<in>set (take r xs). \<forall>y\<in>set (drop r xs). k x \<le> k y"
    unfolding map_append sorted_append by auto
  have "sorted (map k (take r xs) @ k p # map k (drop r xs))"
    unfolding sorted_append using s1 s2 s3 t d by (auto simp: less_imp_le)
  then show ?thesis by (simp add: e)
qed

lemma filter_binaryInsert:
  assumes srt: "sorted (map k xs)"
    and ind: "\<And>y. y \<in> set xs \<Longrightarrow> cmp p y = LT \<longleftrightarrow> k p < k y"
  shows "filter (\<lambda>x. c = k x) (binaryInsert cmp xs p) =
           filter (\<lambda>x. c = k x) xs @ filter (\<lambda>x. c = k x) [p]"
proof -
  from binaryInsert_split [of k xs cmp p, OF srt ind]
  obtain r where e: "binaryInsert cmp xs p = take r xs @ p # drop r xs"
    and d: "\<forall>y\<in>set (drop r xs). k p < k y"
    by blast
  define P where "P = (\<lambda>x. c = k x)"
  have dp: "filter P (drop r xs) = []" if "P p"
    using d that by (auto simp: P_def filter_empty_conv)
  have x: "filter P xs = filter P (take r xs) @ filter P (drop r xs)"
    by (metis append_take_drop_id filter_append)
  have "filter P (binaryInsert cmp xs p) = filter P xs @ filter P [p]"
    unfolding e x using dp by (cases "P p") simp_all
  then show ?thesis by (simp only: P_def)
qed

lemma sorted_foldl_binaryInsert:
  "sorted (map k acc) \<Longrightarrow>
   (\<And>x y. x \<in> set acc \<union> set ys \<Longrightarrow> y \<in> set acc \<union> set ys \<Longrightarrow> cmp x y = LT \<longleftrightarrow> k x < k y) \<Longrightarrow>
   sorted (map k (foldl (binaryInsert cmp) acc ys))"
proof (induction ys arbitrary: acc)
  case Nil
  then show ?case by simp
next
  case (Cons p ys)
  have 1: "sorted (map k (binaryInsert cmp acc p))"
    by (rule sorted_binaryInsert [OF Cons.prems(1)]) (rule Cons.prems(2), simp_all)
  have 2: "set (binaryInsert cmp acc p) = insert p (set acc)"
    using mset_binaryInsert [of cmp acc p] by (metis set_mset_add_mset_insert set_mset_mset)
  have "sorted (map k (foldl (binaryInsert cmp) (binaryInsert cmp acc p) ys))"
    by (rule Cons.IH [OF 1]) (rule Cons.prems(2), simp_all add: 2)
  then show ?case by simp
qed

lemma countRun_ascending:
  "(\<And>x y. x \<in> set (prev # rest) \<Longrightarrow> y \<in> set (prev # rest) \<Longrightarrow> cmp x y = LT \<longleftrightarrow> k x < k y) \<Longrightarrow>
   sorted (map k (prev # take (countRun cmp False prev rest) rest))"
proof (induction rest arbitrary: prev)
  case Nil
  show ?case by simp
next
  case (Cons cur rest)
  show ?case
  proof (cases "cmp cur prev = LT")
    case True
    then show ?thesis by simp
  next
    case False
    have "\<not> k cur < k prev" using Cons.prems [of cur prev] False by simp
    then have le: "k prev \<le> k cur" by simp
    have ih: "sorted (map k (cur # take (countRun cmp False cur rest) rest))"
      by (rule Cons.IH) (rule Cons.prems, simp_all)
    have "\<forall>y\<in>set (cur # take (countRun cmp False cur rest) rest). k cur \<le> k y"
      using ih by simp
    then have "\<forall>y\<in>set (cur # take (countRun cmp False cur rest) rest). k prev \<le> k y"
      using le by (meson order_trans)
    then show ?thesis using False ih by simp
  qed
qed

lemma countRun_descending:
  "(\<And>x y. x \<in> set (prev # rest) \<Longrightarrow> y \<in> set (prev # rest) \<Longrightarrow>
      cmp x y = LT \<longleftrightarrow> (k x :: 'k::linorder) < k y) \<Longrightarrow>
   sorted_wrt (\<lambda>a b. k b < k a) (prev # take (countRun cmp True prev rest) rest)"
proof (induction rest arbitrary: prev)
  case Nil
  show ?case by simp
next
  case (Cons cur rest)
  show ?case
  proof (cases "cmp cur prev = LT")
    case False
    then show ?thesis by simp
  next
    case True
    have lt: "k cur < k prev" using Cons.prems [of cur prev] True by simp
    have ih: "sorted_wrt (\<lambda>a b. k b < k a) (cur # take (countRun cmp True cur rest) rest)"
      by (rule Cons.IH) (rule Cons.prems, simp_all)
    have "\<forall>y\<in>set (take (countRun cmp True cur rest) rest). k y < k cur"
      using ih by simp
    then have "\<forall>y\<in>set (cur # take (countRun cmp True cur rest) rest). k y < k prev"
      using lt by (auto intro: less_trans)
    then show ?thesis using True ih by simp
  qed
qed

lemma descending_run:
  assumes ind: "\<And>a b. a \<in> set xs \<Longrightarrow> b \<in> set xs \<Longrightarrow> cmp a b = LT \<longleftrightarrow> k a < k b"
    and xs: "xs = x # y # rest" and lt: "cmp y x = LT"
  shows "sorted_wrt (\<lambda>a b. (k b :: 'k::linorder) < k a)
           (take (2 + countRun cmp True y rest) xs)"
proof -
  have indr: "cmp a b = LT \<longleftrightarrow> k a < k b"
    if "a \<in> set (y # rest)" "b \<in> set (y # rest)" for a b
    using that by (intro ind) (auto simp: xs)
  have l: "k y < k x" using ind [of y x] lt by (simp add: xs)
  have d: "sorted_wrt (\<lambda>a b. k b < k a) (y # take (countRun cmp True y rest) rest)"
    by (rule countRun_descending) (rule indr)
  then have "\<forall>z\<in>set (y # take (countRun cmp True y rest) rest). k z < k x"
    using l by (auto intro: less_trans)
  with d show ?thesis by (simp add: xs)
qed

lemma sorted_array_sort_run:
  assumes ind: "\<And>a b. a \<in> set xs \<Longrightarrow> b \<in> set xs \<Longrightarrow> cmp a b = LT \<longleftrightarrow> k a < k b"
    and xs: "xs = x # y # rest"
  shows "sorted (map k
           (if cmp y x = LT then rev (take (2 + countRun cmp (cmp y x = LT) y rest) xs)
            else take (2 + countRun cmp (cmp y x = LT) y rest) xs))"
proof (cases "cmp y x = LT")
  case True
  have "sorted_wrt (\<lambda>a b. k b < k a) (take (2 + countRun cmp True y rest) xs)"
    by (rule descending_run [OF ind xs True])
  then have "sorted_wrt (\<lambda>a b. k a < k b) (rev (take (2 + countRun cmp True y rest) xs))"
    by (simp add: sorted_wrt_rev)
  then have "sorted_wrt (\<lambda>a b. k a \<le> k b) (rev (take (2 + countRun cmp True y rest) xs))"
    by (rule sorted_wrt_mono_rel [rotated]) simp
  then show ?thesis using True by (simp add: sorted_map)
next
  case False
  have indr: "cmp a b = LT \<longleftrightarrow> k a < k b"
    if "a \<in> set (y # rest)" "b \<in> set (y # rest)" for a b
    using that by (intro ind) (auto simp: xs)
  from False have "\<not> k y < k x" using ind [of y x] by (simp add: xs)
  then have le: "k x \<le> k y" by simp
  have a: "sorted (map k (y # take (countRun cmp False y rest) rest))"
    by (rule countRun_ascending) (rule indr)
  then have "\<forall>z\<in>set (y # take (countRun cmp False y rest) rest). k y \<le> k z" by simp
  then have "\<forall>z\<in>set (y # take (countRun cmp False y rest) rest). k x \<le> k z"
    using le by (meson order_trans)
  with a show ?thesis using False by (simp add: xs)
qed

lemma sorted_array_sort:
  assumes ind: "\<And>x y. x \<in> set xs \<Longrightarrow> y \<in> set xs \<Longrightarrow> cmp x y = LT \<longleftrightarrow> k x < k y"
  shows "sorted (map k (array_sort cmp xs))"
proof (cases xs)
  case Nil
  then show ?thesis by (simp add: array_sort_def)
next
  case (Cons x ys)
  show ?thesis
  proof (cases ys)
    case Nil
    then show ?thesis using Cons by (simp add: array_sort_def)
  next
    case (Cons y rest)
    note xs = \<open>xs = x # ys\<close> [unfolded Cons]
    define n where "n = 2 + countRun cmp (cmp y x = LT) y rest"
    define run where "run = (if cmp y x = LT then rev (take n xs) else take n xs)"
    have e: "array_sort cmp xs = foldl (binaryInsert cmp) run (drop n xs)"
      unfolding array_sort_def Let_def xs list.case run_def n_def ..
    have r: "sorted (map k run)"
      unfolding run_def n_def
      by (rule sorted_array_sort_run
            [where xs = xs and cmp = cmp and k = k and x = x and y = y and rest = rest,
             OF ind xs])
    have s: "set run \<union> set (drop n xs) = set xs"
    proof -
      have "set run = set (take n xs)" by (simp add: run_def)
      then show ?thesis by (metis append_take_drop_id set_append)
    qed
    show ?thesis unfolding e
      by (rule sorted_foldl_binaryInsert [OF r]) (rule ind, simp_all only: s)
  qed
qed

lemma filter_foldl_binaryInsert:
  "sorted (map k acc) \<Longrightarrow>
   (\<And>x y. x \<in> set acc \<union> set ys \<Longrightarrow> y \<in> set acc \<union> set ys \<Longrightarrow> cmp x y = LT \<longleftrightarrow> k x < k y) \<Longrightarrow>
   filter (\<lambda>x. c = k x) (foldl (binaryInsert cmp) acc ys) =
     filter (\<lambda>x. c = k x) acc @ filter (\<lambda>x. c = k x) ys"
proof (induction ys arbitrary: acc)
  case Nil
  then show ?case by simp
next
  case (Cons p ys)
  have 1: "sorted (map k (binaryInsert cmp acc p))"
    by (rule sorted_binaryInsert [OF Cons.prems(1)]) (rule Cons.prems(2), simp_all)
  have 2: "set (binaryInsert cmp acc p) = insert p (set acc)"
    using mset_binaryInsert [of cmp acc p] by (metis set_mset_add_mset_insert set_mset_mset)
  have 3: "filter (\<lambda>x. c = k x) (binaryInsert cmp acc p) =
      filter (\<lambda>x. c = k x) acc @ filter (\<lambda>x. c = k x) [p]"
    by (rule filter_binaryInsert [OF Cons.prems(1)]) (rule Cons.prems(2), simp_all)
  have "filter (\<lambda>x. c = k x) (foldl (binaryInsert cmp) (binaryInsert cmp acc p) ys) =
      filter (\<lambda>x. c = k x) (binaryInsert cmp acc p) @ filter (\<lambda>x. c = k x) ys"
    by (rule Cons.IH [OF 1]) (rule Cons.prems(2), simp_all add: 2)
  then show ?case by (simp add: 3)
qed

lemma filter_descending:
  "sorted_wrt (\<lambda>a b. (k b :: 'k::linorder) < k a) xs \<Longrightarrow>
   filter (\<lambda>x. c = k x) (rev xs) = filter (\<lambda>x. c = k x) xs"
proof (induction xs)
  case Nil
  show ?case by simp
next
  case (Cons x xs)
  then have ih: "filter (\<lambda>x. c = k x) (rev xs) = filter (\<lambda>x. c = k x) xs" by simp
  show ?case
  proof (cases "c = k x")
    case True
    then have "filter (\<lambda>x. c = k x) xs = []" using Cons.prems by (auto simp: filter_empty_conv)
    then show ?thesis using True ih by simp
  next
    case False
    then show ?thesis using ih by simp
  qed
qed

lemma stable_array_sort:
  assumes ind: "\<And>x y. x \<in> set xs \<Longrightarrow> y \<in> set xs \<Longrightarrow> cmp x y = LT \<longleftrightarrow> k x < k y"
  shows "array_sort cmp xs = sort_key k xs"
proof (rule properties_for_sort_key [symmetric])
  show "mset (array_sort cmp xs) = mset xs" by (rule mset_array_sort)
  show "sorted (map k (array_sort cmp xs))" by (rule sorted_array_sort) (rule ind)
  fix z
  show "filter (\<lambda>x. k z = k x) (array_sort cmp xs) = filter (\<lambda>x. k z = k x) xs"
  proof (cases xs)
    case Nil
    then show ?thesis by (simp add: array_sort_def)
  next
    case (Cons x ys)
    show ?thesis
    proof (cases ys)
      case Nil
      then show ?thesis using Cons by (simp add: array_sort_def)
    next
      case (Cons y rest)
      note xs = \<open>xs = x # ys\<close> [unfolded Cons]
      define n where "n = 2 + countRun cmp (cmp y x = LT) y rest"
      define run where "run = (if cmp y x = LT then rev (take n xs) else take n xs)"
      have e: "array_sort cmp xs = foldl (binaryInsert cmp) run (drop n xs)"
        unfolding array_sort_def Let_def xs list.case run_def n_def ..
      have r: "sorted (map k run)"
        unfolding run_def n_def
        by (rule sorted_array_sort_run
              [where xs = xs and cmp = cmp and k = k and x = x and y = y and rest = rest,
               OF ind xs])
      have s: "set run \<union> set (drop n xs) = set xs"
      proof -
        have "set run = set (take n xs)" by (simp add: run_def)
        then show ?thesis by (metis append_take_drop_id set_append)
      qed
      have f: "filter (\<lambda>x. k z = k x) run = filter (\<lambda>x. k z = k x) (take n xs)"
      proof (cases "cmp y x = LT")
        case False
        then show ?thesis by (simp add: run_def)
      next
        case True
        have "sorted_wrt (\<lambda>a b. k b < k a) (take n xs)"
          using descending_run
              [where xs = xs and cmp = cmp and k = k and x = x and y = y and rest = rest,
               OF ind xs True]
            True
          by (simp add: n_def)
        from filter_descending [OF this] show ?thesis using True by (simp add: run_def)
      qed
      have "filter (\<lambda>x. k z = k x) (foldl (binaryInsert cmp) run (drop n xs)) =
          filter (\<lambda>x. k z = k x) run @ filter (\<lambda>x. k z = k x) (drop n xs)"
        by (rule filter_foldl_binaryInsert [OF r]) (rule ind, simp_all only: s)
      also have "\<dots> = filter (\<lambda>x. k z = k x) (take n xs @ drop n xs)"
        by (simp only: f filter_append)
      finally show ?thesis unfolding e by simp
    qed
  qed
qed

lemma sorted_array_sort_base: "sorted (array_sort baseCompare (xs::'a::linorder list))"
  using sorted_array_sort [of xs baseCompare "\<lambda>x. x"] by (simp add: baseCompare_LT)

lemma set_add_set: "set (set_add acc x) = insert x (set acc)"
  by (auto simp: set_add_def)

lemma set_add_distinct: "distinct acc \<Longrightarrow> distinct (set_add acc x)"
  by (auto simp: set_add_def)

lemma foldl_set_add: "distinct acc \<Longrightarrow> distinct (foldl set_add acc xs) \<and> set (foldl set_add acc xs) = set acc \<union> set xs"
  by (induction xs arbitrary: acc) (auto simp: set_add_set set_add_distinct)

lemma new_Set_props: "distinct (new_Set xs)" "set (new_Set xs) = set xs"
  using foldl_set_add [of "[]" xs] by (simp_all add: new_Set_def)

lemma sort_new_Set: "array_sort baseCompare (new_Set xs) = sortedUnique xs"
  unfolding sortedUnique_def
  by (rule sorted_distinct_set_unique)
     (simp_all add: sorted_array_sort_base distinct_array_sort set_array_sort new_Set_props)

lemma cmp_LT_same_path:
  "path x = path y \<Longrightarrow> docComparePathThenNewestFirst x y = LT \<longleftrightarrow>
     signature x \<noteq> signature y \<and> timestamp y < timestamp x"
  by (auto simp: docComparePathThenNewestFirst_def arrayCompare_LT)

lemma signaturesAgree_iff:
  "signaturesAgree docs \<longleftrightarrow>
     (\<forall>x\<in>set docs. \<forall>y\<in>set docs. signature x = signature y \<longrightarrow> timestamp x = timestamp y)"
  by (simp add: signaturesAgree_def list_all_iff)

lemma set_pushAndSort: "fst ` set (pushAndSort docs d) = insert d (set docs)"
  by (simp add: pushAndSort_def set_array_sort image_Un image_image)

lemma pushAndSort_not_Nil: "pushAndSort docs d \<noteq> []"
  by (simp add: pushAndSort_def array_sort_eq_Nil)

lemma pushAndSort_newestFirst:
  assumes p: "\<forall>x\<in>set docs. path x = path d"
    and s: "signaturesAgree (map fst (pushAndSort docs d))"
  shows "newestFirst (map fst (pushAndSort docs d))"
proof -
  let ?cmp = "\<lambda>a b. docComparePathThenNewestFirst (fst a) (fst b)"
  let ?xs = "map (\<lambda>x. (x, False)) docs @ [(d, True)]"
  let ?k = "\<lambda>a::Doc \<times> bool. - timestamp (fst a)"
  have m: "fst a \<in> insert d (set docs)" if "a \<in> set ?xs" for a
    using that by auto
  have ind: "?cmp a b = LT \<longleftrightarrow> ?k a < ?k b" if a: "a \<in> set ?xs" and b: "b \<in> set ?xs" for a b
  proof -
    have pa: "path (fst a) = path d" and pb: "path (fst b) = path d"
      using m [OF a] m [OF b] p by auto
    have "fst a \<in> set (map fst (pushAndSort docs d))" "fst b \<in> set (map fst (pushAndSort docs d))"
      using m [OF a] m [OF b] by (simp_all add: set_pushAndSort)
    then have ag: "signature (fst a) = signature (fst b) \<longrightarrow> timestamp (fst a) = timestamp (fst b)"
      using s unfolding signaturesAgree_iff by blast
    have "path (fst a) = path (fst b)" using pa pb by simp
    from cmp_LT_same_path [OF this] ag show ?thesis by auto
  qed
  have "sorted (map ?k (array_sort ?cmp ?xs))"
    by (rule sorted_array_sort) (rule ind)
  then have "sorted_wrt (\<lambda>a b. timestamp (fst b) \<le> timestamp (fst a)) (pushAndSort docs d)"
    by (simp add: pushAndSort_def sorted_map)
  then show ?thesis by (simp add: newestFirst_def sorted_wrt_map)
qed

subsection \<open>What \<^verbatim>\<open>upsert\<close> does to the bowl\<close>

lemma list_all_update:
  "list_all P al \<Longrightarrow> P (k, v) \<Longrightarrow> list_all P (AList.update k v al)"
  by (induction al) auto

lemma map_of_list_all: "map_of al k = Some v \<Longrightarrow> list_all P al \<Longrightarrow> P (k, v)"
  by (auto simp: list_all_iff dest: map_of_SomeD)

lemma list_all_imp:
  "list_all P xs \<Longrightarrow> (\<And>x. x \<in> set xs \<Longrightarrow> P x \<Longrightarrow> Q x) \<Longrightarrow> list_all Q xs"
  by (simp add: list_all_iff)

lemma upsert_not_wins:
  "map_of (docWithPathAndAuthor b) (combinePathAndAuthor d) = Some e \<Longrightarrow>
   docCompareForOverwrite d e \<noteq> GT \<Longrightarrow>
   upsert b d =
     (if docCompareForOverwrite d e = LT then Inr Obsolete else Inr AlreadyHadIt, d, b)"
  by (cases "docCompareForOverwrite d e") (simp_all add: upsert_def docIsValid_def Let_def)

lemma not_wins_iff:
  "\<not> wins b d \<longleftrightarrow>
     (\<exists>e. map_of (docWithPathAndAuthor b) (combinePathAndAuthor d) = Some e \<and>
          docCompareForOverwrite d e \<noteq> GT)"
  by (auto simp: wins_def split: option.splits)

lemma upsert_rejected:
  assumes "\<not> wins b d"
  shows "snd (upsert b d) = (d, b) \<and> \<not> saved (fst (upsert b d)) \<and>
         (fst (upsert b d) = Inr Obsolete \<or> fst (upsert b d) = Inr AlreadyHadIt)"
proof -
  from assms obtain e where "map_of (docWithPathAndAuthor b) (combinePathAndAuthor d) = Some e"
    and "docCompareForOverwrite d e \<noteq> GT"
    unfolding not_wins_iff by blast
  from upsert_not_wins [OF this] show ?thesis by (simp add: saved_def)
qed

lemma wins_cases:
  assumes "wins b d"
  obtains "map_of (docWithPathAndAuthor b) (combinePathAndAuthor d) = None"
  | e where "map_of (docWithPathAndAuthor b) (combinePathAndAuthor d) = Some e"
      and "docCompareForOverwrite d e = GT"
  using assms by (auto simp: wins_def split: option.splits)

lemma upsert_throws:
  assumes "wins b d" and "frozen d"
  shows "upsert b d =
     (Inl TypeError, d,
      b\<lparr>highestLocalIndex := Suc (highestLocalIndex b),
        docsByPathNewestFirst :=
          (case map_of (docsByPathNewestFirst b) (path d) of
             None \<Rightarrow> docsByPathNewestFirst b
           | Some docs \<Rightarrow>
               AList.update (path d) (map fst (pushAndSort docs d))
                 (docsByPathNewestFirst b))\<rparr>)"
  using assms(1)
proof (cases rule: wins_cases)
  case 1
  then show ?thesis using assms(2) by (simp add: upsert_def docIsValid_def Let_def)
next
  case (2 e)
  then show ?thesis using assms(2) by (simp add: upsert_def docIsValid_def Let_def)
qed

lemma upsert_accepted:
  assumes "wins b d" and "\<not> frozen d"
  shows "upsert b d =
     (let h = Suc (highestLocalIndex b);
          d' = storedAs h d;
          sortedDocs =
            pushAndSort
              (case map_of (docsByPathNewestFirst b) (path d) of
                 None \<Rightarrow> []
               | Some docs \<Rightarrow> docs) d';
          latest = (case sortedDocs of [] \<Rightarrow> False | x # rest \<Rightarrow> snd x);
          previousLatest =
            (if latest
             then (case map fst sortedDocs of x # y # rest \<Rightarrow> Some y | _ \<Rightarrow> None)
             else None);
          event = \<lparr>doc = d', isLatest = latest,
                   previousDocSameAuthor =
                     map_of (docWithPathAndAuthor b) (combinePathAndAuthor d),
                   previousLatestDoc = previousLatest\<rparr>
      in (Inr (if latest then AcceptedAndLatest else AcceptedButNotLatest), d',
          b\<lparr>highestLocalIndex := h,
            docWithLocalIndex := AList.update h d' (docWithLocalIndex b),
            docsByPathNewestFirst :=
              AList.update (path d) (map fst sortedDocs) (docsByPathNewestFirst b),
            docWithPathAndAuthor :=
              AList.update (combinePathAndAuthor d) d' (docWithPathAndAuthor b),
            onWriteCbs := map (\<lambda>calls. calls @ [event]) (onWriteCbs b),
            followers := fst (updateFollowers h d' 0 (followers b)),
            immediates := immediates b @ snd (updateFollowers h d' 0 (followers b))\<rparr>))"
  using assms(1)
proof (cases rule: wins_cases)
  case 1
  then show ?thesis using assms(2)
    by (simp add: upsert_def docIsValid_def Let_def storedAs_def case_prod_beta)
next
  case (2 e)
  then show ?thesis using assms(2)
    by (simp add: upsert_def docIsValid_def Let_def storedAs_def case_prod_beta)
qed

lemma upsert_wins_saved: "wins b d \<Longrightarrow> \<not> frozen d \<Longrightarrow> saved (fst (upsert b d))"
  by (simp add: upsert_accepted Let_def saved_def)

lemma upsert_wins_doc:
  "wins b d \<Longrightarrow> \<not> frozen d \<Longrightarrow>
   fst (snd (upsert b d)) = storedAs (Suc (highestLocalIndex b)) d"
  by (simp add: upsert_accepted Let_def)

lemma upsert_wins_highest:
  "wins b d \<Longrightarrow> \<not> frozen d \<Longrightarrow>
   highestLocalIndex (snd (snd (upsert b d))) = Suc (highestLocalIndex b)"
  by (simp add: upsert_accepted Let_def)

lemma upsert_wins_byIndex:
  "wins b d \<Longrightarrow> \<not> frozen d \<Longrightarrow>
   docWithLocalIndex (snd (snd (upsert b d))) =
     AList.update (Suc (highestLocalIndex b)) (storedAs (Suc (highestLocalIndex b)) d)
       (docWithLocalIndex b)"
  by (simp add: upsert_accepted Let_def)

lemma upsert_wins_byAuthor:
  "wins b d \<Longrightarrow> \<not> frozen d \<Longrightarrow>
   docWithPathAndAuthor (snd (snd (upsert b d))) =
     AList.update (combinePathAndAuthor d) (storedAs (Suc (highestLocalIndex b)) d)
       (docWithPathAndAuthor b)"
  by (simp add: upsert_accepted Let_def)

lemma upsert_wins_byPath:
  "wins b d \<Longrightarrow> \<not> frozen d \<Longrightarrow>
   docsByPathNewestFirst (snd (snd (upsert b d))) =
     AList.update (path d)
       (map fst (pushAndSort
          (case map_of (docsByPathNewestFirst b) (path d) of None \<Rightarrow> [] | Some docs \<Rightarrow> docs)
          (storedAs (Suc (highestLocalIndex b)) d)))
       (docsByPathNewestFirst b)"
  by (simp add: upsert_accepted Let_def)

lemma upsert_wins_followers:
  "wins b d \<Longrightarrow> \<not> frozen d \<Longrightarrow>
   followers (snd (snd (upsert b d))) =
     fst (updateFollowers (Suc (highestLocalIndex b))
            (storedAs (Suc (highestLocalIndex b)) d) 0 (followers b)) \<and>
   immediates (snd (snd (upsert b d))) =
     immediates b @ snd (updateFollowers (Suc (highestLocalIndex b))
            (storedAs (Suc (highestLocalIndex b)) d) 0 (followers b))"
  by (simp add: upsert_accepted Let_def)

lemma path_storedAs: "path (storedAs h d) = path d"
  by (simp add: storedAs_def)

lemma sameKey_refl: "sameKey d d"
  by (simp add: sameKey_def)

lemma sameKey_storedAs: "sameKey (storedAs h d) d"
  by (simp add: sameKey_def storedAs_def)

lemma sameKey_path: "sameKey e d \<Longrightarrow> path e = path d"
  by (simp add: sameKey_def)

lemma upsert_byPath_cases:
  "docsByPathNewestFirst (snd (snd (upsert b d))) = docsByPathNewestFirst b \<or>
   (\<exists>docs e. sameKey e d \<and>
      (case map_of (docsByPathNewestFirst b) (path d) of None \<Rightarrow> [] | Some old \<Rightarrow> old) = docs \<and>
      docsByPathNewestFirst (snd (snd (upsert b d))) =
        AList.update (path d) (map fst (pushAndSort docs e)) (docsByPathNewestFirst b))"
proof (cases "wins b d")
  case False
  then show ?thesis by (simp add: upsert_rejected)
next
  case True
  show ?thesis
  proof (cases "frozen d")
    case False
    from upsert_wins_byPath [OF True False] show ?thesis
      by (intro disjI2 exI conjI) (auto simp: sameKey_storedAs)
  next
    case fr: True
    show ?thesis
    proof (cases "map_of (docsByPathNewestFirst b) (path d)")
      case None
      then show ?thesis by (simp add: upsert_throws [OF True fr])
    next
      case (Some old)
      then have "docsByPathNewestFirst (snd (snd (upsert b d))) =
          AList.update (path d) (map fst (pushAndSort old d)) (docsByPathNewestFirst b)"
        by (simp add: upsert_throws [OF True fr])
      then show ?thesis using Some
        by (intro disjI2 exI [of _ old] exI [of _ d]) (simp add: sameKey_refl)
    qed
  qed
qed

lemma upsert_cases [case_names rejected throws accepted]:
  obtains "\<not> wins b d" | "wins b d" "frozen d" | "wins b d" "\<not> frozen d"
  by blast

lemma byPath_upsert:
  assumes k: "distinct (map fst (docsByPathNewestFirst b))"
    and a: "list_all (\<lambda>(p, docs). docs \<noteq> [] \<and> list_all (\<lambda>x. path x = p) docs)
              (docsByPathNewestFirst b)"
  shows "distinct (map fst (docsByPathNewestFirst (snd (snd (upsert b d))))) \<and>
         list_all (\<lambda>(p, docs). docs \<noteq> [] \<and> list_all (\<lambda>x. path x = p) docs)
           (docsByPathNewestFirst (snd (snd (upsert b d))))"
proof -
  from upsert_byPath_cases [of b d] show ?thesis
  proof
    assume "docsByPathNewestFirst (snd (snd (upsert b d))) = docsByPathNewestFirst b"
    then show ?thesis using k a by simp
  next
    assume "\<exists>docs e. sameKey e d \<and>
      (case map_of (docsByPathNewestFirst b) (path d) of None \<Rightarrow> [] | Some old \<Rightarrow> old) = docs \<and>
      docsByPathNewestFirst (snd (snd (upsert b d))) =
        AList.update (path d) (map fst (pushAndSort docs e)) (docsByPathNewestFirst b)"
    then obtain docs e where ke: "sameKey e d"
      and docs: "(case map_of (docsByPathNewestFirst b) (path d) of
                    None \<Rightarrow> [] | Some old \<Rightarrow> old) = docs"
      and eq: "docsByPathNewestFirst (snd (snd (upsert b d))) =
        AList.update (path d) (map fst (pushAndSort docs e)) (docsByPathNewestFirst b)"
      by blast
    note pe = sameKey_path [OF ke]
    have old: "list_all (\<lambda>x. path x = path d) docs"
    proof (cases "map_of (docsByPathNewestFirst b) (path d)")
      case None
      then show ?thesis using docs by auto
    next
      case (Some arr)
      from map_of_list_all [OF Some a] show ?thesis using Some docs by auto
    qed
    have "set (map fst (pushAndSort docs e)) = insert e (set docs)"
      using set_pushAndSort [of docs e] by simp
    then have new: "case (path d, map fst (pushAndSort docs e)) of
        (p, docs) \<Rightarrow> docs \<noteq> [] \<and> list_all (\<lambda>x. path x = p) docs"
      using old pe by (simp add: pushAndSort_not_Nil list_all_iff)
    show ?thesis unfolding eq using k list_all_update [OF a new] by (simp add: distinct_update)
  qed
qed

lemma byAuthor_upsert:
  "docWithPathAndAuthor (snd (snd (upsert b d))) = docWithPathAndAuthor b \<and>
   docWithLocalIndex (snd (snd (upsert b d))) = docWithLocalIndex b \<and>
   highestLocalIndex b \<le> highestLocalIndex (snd (snd (upsert b d))) \<and>
   followers (snd (snd (upsert b d))) = followers b \<and>
   immediates (snd (snd (upsert b d))) = immediates b \<or>
   wins b d \<and> \<not> frozen d"
proof (cases rule: upsert_cases [of b d])
  case rejected
  then show ?thesis by (simp add: upsert_rejected)
next
  case throws
  then show ?thesis by (simp add: upsert_throws)
next
  case accepted
  then show ?thesis by simp
qed

lemma indexesOk_upsert:
  assumes ok: "indexesOk b"
  shows "indexesOk (snd (snd (upsert b d)))"
proof -
  have k: "distinct (map fst (docsByPathNewestFirst b))"
    and a: "list_all (\<lambda>(p, docs). docs \<noteq> [] \<and> list_all (\<lambda>x. path x = p) docs)
              (docsByPathNewestFirst b)"
    and c: "list_all (\<lambda>(k, e). k = combinePathAndAuthor e) (docWithPathAndAuthor b)"
    using ok by (simp_all add: indexesOk_def)
  have 3: "list_all (\<lambda>(k, e). k = combinePathAndAuthor e)
             (docWithPathAndAuthor (snd (snd (upsert b d))))"
    using byAuthor_upsert [of b d]
  proof
    assume "wins b d \<and> \<not> frozen d"
    then have w: "wins b d" and f: "\<not> frozen d" by simp_all
    show ?thesis unfolding upsert_wins_byAuthor [OF w f]
      by (rule list_all_update [OF c]) (simp add: combinePathAndAuthor_def storedAs_def)
  next
    assume "docWithPathAndAuthor (snd (snd (upsert b d))) = docWithPathAndAuthor b \<and>
   docWithLocalIndex (snd (snd (upsert b d))) = docWithLocalIndex b \<and>
   highestLocalIndex b \<le> highestLocalIndex (snd (snd (upsert b d))) \<and>
   followers (snd (snd (upsert b d))) = followers b \<and>
   immediates (snd (snd (upsert b d))) = immediates b"
    then show ?thesis using c by simp
  qed
  show ?thesis unfolding indexesOk_def using byPath_upsert [OF k a, of d] 3 by blast
qed

lemma arraysSorted_upsert:
  assumes ok: "indexesOk b" and srt: "arraysSorted b"
  shows "arraysSorted (snd (snd (upsert b d)))"
proof -
  have a: "list_all (\<lambda>(p, docs). docs \<noteq> [] \<and> list_all (\<lambda>x. path x = p) docs)
              (docsByPathNewestFirst b)"
    using ok by (simp add: indexesOk_def)
  have s: "list_all (\<lambda>(p, docs). signaturesAgree docs \<longrightarrow> newestFirst docs)
              (docsByPathNewestFirst b)"
    using srt by (simp add: arraysSorted_def)
  from upsert_byPath_cases [of b d] show ?thesis
  proof
    assume "docsByPathNewestFirst (snd (snd (upsert b d))) = docsByPathNewestFirst b"
    then show ?thesis using s by (simp add: arraysSorted_def)
  next
    assume "\<exists>docs e. sameKey e d \<and>
      (case map_of (docsByPathNewestFirst b) (path d) of None \<Rightarrow> [] | Some old \<Rightarrow> old) = docs \<and>
      docsByPathNewestFirst (snd (snd (upsert b d))) =
        AList.update (path d) (map fst (pushAndSort docs e)) (docsByPathNewestFirst b)"
    then obtain docs e where ke: "sameKey e d"
      and docs: "(case map_of (docsByPathNewestFirst b) (path d) of
                    None \<Rightarrow> [] | Some old \<Rightarrow> old) = docs"
      and eq: "docsByPathNewestFirst (snd (snd (upsert b d))) =
        AList.update (path d) (map fst (pushAndSort docs e)) (docsByPathNewestFirst b)"
      by blast
    note pe = sameKey_path [OF ke]
    have old: "\<forall>x\<in>set docs. path x = path e"
    proof (cases "map_of (docsByPathNewestFirst b) (path d)")
      case None
      then show ?thesis using docs by auto
    next
      case (Some arr)
      from map_of_list_all [OF Some a] show ?thesis using Some docs pe by (auto simp: list_all_iff)
    qed
    have new: "case (path d, map fst (pushAndSort docs e)) of
        (p, docs) \<Rightarrow> signaturesAgree docs \<longrightarrow> newestFirst docs"
      using pushAndSort_newestFirst [OF old] by simp
    show ?thesis unfolding arraysSorted_def eq by (rule list_all_update [OF s new])
  qed
qed

subsection \<open>The calls of a run\<close>

lemma sameDocs_addFollower: "sameDocs b (addFollower b f)"
  by (simp add: sameDocs_def addFollower_def Let_def wakeAsyncFollower_def)

lemma sameDocs_onWrite: "sameDocs b (onWrite b)"
  by (simp add: sameDocs_def onWrite_def)

lemma sameDocs_continue: "continueAsyncFollower i b = Inr b' \<Longrightarrow> sameDocs b b'"
  by (auto simp: sameDocs_def continueAsyncFollower_def Let_def split: if_splits)

lemma sameDocs_runImmediate:
  "sameDocs b (case runImmediate b of Inr b' \<Rightarrow> b' | Inl e \<Rightarrow> b\<lparr>immediates := tl (immediates b)\<rparr>)"
proof (cases "runImmediate b")
  case (Inl e)
  then show ?thesis by (simp add: sameDocs_def)
next
  case (Inr b')
  then show ?thesis
    by (auto simp: runImmediate_def sameDocs_def split: list.splits dest!: sameDocs_continue)
qed

lemma writeDoc_upsert:
  "\<exists>d. writeDoc env b keypair w = upsert b d \<and> signature d = ''sig'' @ fakeUuid env \<and>
       path d = toWrite_path w \<and> author d = address keypair \<and> \<not> frozen d \<and>
       timestamp d = (case getLatestDocAtPath b (toWrite_path w) of
                        None \<Rightarrow> now env | Some e \<Rightarrow> timestamp e + 1)"
  unfolding writeDoc_def Let_def signDoc_def
  by (intro exI conjI, rule refl) simp_all

lemma step_cases:
  "(\<exists>d. step b c = (Some (fst (upsert b d), fst (snd (upsert b d))), snd (snd (upsert b d))) \<and>
        (unfrozenCalls [c] \<longrightarrow> \<not> frozen d)) \<or>
   (\<exists>b'. step b c = (None, b') \<and> sameDocs b b')"
proof (cases c)
  case (Upsert d)
  then show ?thesis
    by (intro disjI1 exI [of _ d]) (simp add: step_def split: prod.splits)
next
  case (Write env keypair w)
  obtain d where "writeDoc env b keypair w = upsert b d" "\<not> frozen d"
    using writeDoc_upsert by blast
  then show ?thesis using Write
    by (intro disjI1 exI [of _ d]) (simp add: step_def split: prod.splits)
next
  case (AddFollower f)
  then show ?thesis by (simp add: step_def sameDocs_addFollower)
next
  case OnWrite
  then show ?thesis by (simp add: step_def sameDocs_onWrite)
next
  case RunImmediate
  then show ?thesis by (simp add: step_def sameDocs_runImmediate)
qed

lemma run_Cons:
  "run b (c # cs) =
     ((case fst (step b c) of None \<Rightarrow> [] | Some x \<Rightarrow> [x]) @ fst (run (snd (step b c)) cs),
      snd (run (snd (step b c)) cs))"
  by (simp split: prod.splits)

lemma assignedIndexes_Nil: "assignedIndexes [] = []"
  by (simp add: assignedIndexes_def)

lemma assignedIndexes_append:
  "assignedIndexes (xs @ ys) = assignedIndexes xs @ assignedIndexes ys"
  by (simp add: assignedIndexes_def)

lemma indexLess_upt: "sorted_wrt indexLess (map Some [m..<n])"
  by (simp add: sorted_wrt_map indexLess_def)

subsection \<open>What every bowl of a run satisfies\<close>

lemma overwrite_LT: "docCompareForOverwrite d e = LT \<longleftrightarrow> overwriteKeyLess d e"
  by (simp add: docCompareForOverwrite_def overwriteKeyLess_def arrayCompare_LT)

lemma overwrite_GT: "docCompareForOverwrite d e = GT \<longleftrightarrow> overwriteKeyLess e d"
  by (auto simp: docCompareForOverwrite_def overwriteKeyLess_def arrayCompare_GT)

lemma overwriteKeyLess_trans:
  "overwriteKeyLess a b \<Longrightarrow> overwriteKeyLess b c \<Longrightarrow> overwriteKeyLess a c"
  by (auto simp: overwriteKeyLess_def)

lemma update_fresh: "k \<notin> fst ` set al \<Longrightarrow> AList.update k v al = al @ [(k, v)]"
  by (induction al) auto

lemma set_update_subset: "set (AList.update k v al) \<subseteq> insert (k, v) (set al)"
  by (induction al) auto

lemma sameDocs_fields:
  assumes "sameDocs b b'"
  shows "highestLocalIndex b' = highestLocalIndex b"
    and "docWithLocalIndex b' = docWithLocalIndex b"
    and "docWithPathAndAuthor b' = docWithPathAndAuthor b"
    and "docsByPathNewestFirst b' = docsByPathNewestFirst b"
  using assms by (simp_all add: sameDocs_def)

lemma overwriteKeyLess_storedAs:
  "overwriteKeyLess a (storedAs h b) = overwriteKeyLess a b"
  "overwriteKeyLess (storedAs h a) b = overwriteKeyLess a b"
  by (simp_all add: overwriteKeyLess_def storedAs_def)

lemma combine_storedAs: "combinePathAndAuthor (storedAs h d) = combinePathAndAuthor d"
  by (simp add: combinePathAndAuthor_def storedAs_def)

lemma indexesOk_sameDocs: "sameDocs b b' \<Longrightarrow> indexesOk b \<Longrightarrow> indexesOk b'"
  unfolding indexesOk_def by (simp only: sameDocs_fields)

lemma retainedOk_sameDocs: "sameDocs b b' \<Longrightarrow> retainedOk b \<Longrightarrow> retainedOk b'"
  unfolding retainedOk_def by (simp only: sameDocs_fields)

lemma arraysSorted_sameDocs: "sameDocs b b' \<Longrightarrow> arraysSorted b \<Longrightarrow> arraysSorted b'"
  unfolding arraysSorted_def by (simp only: sameDocs_fields)

lemma keyedOk_sameDocs: "sameDocs b b' \<Longrightarrow> keyedOk b \<Longrightarrow> keyedOk b'"
  unfolding keyedOk_def by (simp only: sameDocs_fields)

lemma indexesOk_new: "indexesOk new_Bowl"
  by (simp add: indexesOk_def new_Bowl_def)

lemma retainedOk_new: "retainedOk new_Bowl"
  by (simp add: retainedOk_def new_Bowl_def)

lemma arraysSorted_new: "arraysSorted new_Bowl"
  by (simp add: arraysSorted_def new_Bowl_def)

lemma keyedOk_new: "keyedOk new_Bowl"
  by (simp add: keyedOk_def new_Bowl_def)

lemma retained_fresh:
  assumes "retainedOk b"
  shows "Suc (highestLocalIndex b) \<notin> fst ` set (docWithLocalIndex b)"
proof
  assume "Suc (highestLocalIndex b) \<in> fst ` set (docWithLocalIndex b)"
  then have "Suc (highestLocalIndex b) \<in> set (map fst (docWithLocalIndex b))" by simp
  moreover have "\<forall>i\<in>set (map fst (docWithLocalIndex b)). i \<le> highestLocalIndex b"
    using assms by (simp add: retainedOk_def list_all_iff)
  ultimately have "Suc (highestLocalIndex b) \<le> highestLocalIndex b" by blast
  then show False by simp
qed

lemma upsert_accepted_byIndex:
  assumes ok: "retainedOk b" and w: "wins b d" and f: "\<not> frozen d"
  shows "docWithLocalIndex (snd (snd (upsert b d))) =
     docWithLocalIndex b @
       [(Suc (highestLocalIndex b), storedAs (Suc (highestLocalIndex b)) d)]"
  by (simp only: upsert_wins_byIndex [OF w f] update_fresh [OF retained_fresh [OF ok]])

lemma retainedOk_upsert:
  assumes ok: "retainedOk b"
  shows "retainedOk (snd (snd (upsert b d)))"
proof (cases rule: upsert_cases [of b d])
  case rejected
  then show ?thesis using ok by (simp add: upsert_rejected)
next
  case throws
  have "list_all (\<lambda>i. 1 \<le> i \<and> i \<le> Suc (highestLocalIndex b)) (map fst (docWithLocalIndex b))"
    by (rule list_all_imp [of "\<lambda>i. 1 \<le> i \<and> i \<le> highestLocalIndex b"])
       (use ok in \<open>simp_all add: retainedOk_def\<close>)
  then show ?thesis using ok by (simp add: upsert_throws [OF throws] retainedOk_def)
next
  case accepted
  note True = accepted(1)
  let ?h = "Suc (highestLocalIndex b)"
  let ?d = "storedAs ?h d"
  let ?k = "combinePathAndAuthor d"
  let ?A = "AList.update ?k ?d (docWithPathAndAuthor b)"
  have keys: "sorted_wrt (<) (map fst (docWithLocalIndex b))"
    and bnd: "list_all (\<lambda>i. 1 \<le> i \<and> i \<le> highestLocalIndex b) (map fst (docWithLocalIndex b))"
    and i1: "list_all (\<lambda>(i, e).
          (case map_of (docWithPathAndAuthor b) (combinePathAndAuthor e) of
             Some e' \<Rightarrow> e' = e \<or> overwriteKeyLess e e'
           | None \<Rightarrow> False)) (docWithLocalIndex b)"
    and i2: "list_all (\<lambda>(k, e'). e' \<in> set (map snd (docWithLocalIndex b)))
        (docWithPathAndAuthor b)"
    using ok by (simp_all add: retainedOk_def)
  have L: "docWithLocalIndex (snd (snd (upsert b d))) = docWithLocalIndex b @ [(?h, ?d)]"
    by (rule upsert_accepted_byIndex [OF ok accepted])
  have A: "docWithPathAndAuthor (snd (snd (upsert b d))) = ?A"
    by (rule upsert_wins_byAuthor [OF accepted])
  have H: "highestLocalIndex (snd (snd (upsert b d))) = ?h"
    by (rule upsert_wins_highest [OF accepted])
  have kd: "combinePathAndAuthor ?d = ?k" by (rule combine_storedAs)
  have 0: "sorted_wrt (<) (map fst (docWithLocalIndex b @ [(?h, ?d)]))"
    using keys bnd by (auto simp: sorted_wrt_append list_all_iff)
  have 1: "list_all (\<lambda>i. 1 \<le> i \<and> i \<le> ?h) (map fst (docWithLocalIndex b @ [(?h, ?d)]))"
    using bnd by (auto simp: list_all_iff)
  have old: "(case map_of ?A (combinePathAndAuthor e) of
             Some e' \<Rightarrow> e' = e \<or> overwriteKeyLess e e'
           | None \<Rightarrow> False)" if "(i, e) \<in> set (docWithLocalIndex b)" for i e
  proof -
    from that i1 obtain e' where e': "map_of (docWithPathAndAuthor b) (combinePathAndAuthor e) = Some e'"
      and le: "e' = e \<or> overwriteKeyLess e e'"
      by (auto simp: list_all_iff split: option.splits)
    show ?thesis
    proof (cases "combinePathAndAuthor e = ?k")
      case False
      then show ?thesis using e' le by (simp add: update_conv')
    next
      case same: True
      from True e' same have "docCompareForOverwrite d e' = GT" by (simp add: wins_def)
      then have "overwriteKeyLess e' d" by (simp add: overwrite_GT)
      with le have "overwriteKeyLess e d" by (auto intro: overwriteKeyLess_trans)
      then show ?thesis using same by (simp add: update_conv' overwriteKeyLess_storedAs)
    qed
  qed
  have 2: "list_all (\<lambda>(i, e).
          (case map_of ?A (combinePathAndAuthor e) of
             Some e' \<Rightarrow> e' = e \<or> overwriteKeyLess e e'
           | None \<Rightarrow> False)) (docWithLocalIndex b @ [(?h, ?d)])"
    unfolding list_all_append
  proof (intro conjI)
    show "list_all (\<lambda>(i, e).
          (case map_of ?A (combinePathAndAuthor e) of
             Some e' \<Rightarrow> e' = e \<or> overwriteKeyLess e e'
           | None \<Rightarrow> False)) (docWithLocalIndex b)"
      unfolding list_all_iff using old by blast
    show "list_all (\<lambda>(i, e).
          (case map_of ?A (combinePathAndAuthor e) of
             Some e' \<Rightarrow> e' = e \<or> overwriteKeyLess e e'
           | None \<Rightarrow> False)) [(?h, ?d)]"
      by (simp add: kd update_conv')
  qed
  have 3: "list_all (\<lambda>(k, e'). e' \<in> set (map snd (docWithLocalIndex b @ [(?h, ?d)]))) ?A"
  proof (rule list_all_update)
    show "list_all (\<lambda>(k, e'). e' \<in> set (map snd (docWithLocalIndex b @ [(?h, ?d)])))
            (docWithPathAndAuthor b)"
      by (rule list_all_imp [OF i2]) auto
    show "case (?k, ?d) of (k, e') \<Rightarrow> e' \<in> set (map snd (docWithLocalIndex b @ [(?h, ?d)]))"
      by simp
  qed
  show ?thesis unfolding retainedOk_def L A H using 0 1 2 3 by blast
qed

lemma keyedOk_upsert:
  assumes ok: "keyedOk b"
  shows "keyedOk (snd (snd (upsert b d)))"
proof (cases rule: upsert_cases [of b d])
  case rejected
  then show ?thesis using ok by (simp add: upsert_rejected)
next
  case throws
  then show ?thesis using ok by (simp add: upsert_throws keyedOk_def)
next
  case accepted
  show ?thesis
    unfolding keyedOk_def upsert_wins_byIndex [OF accepted]
    by (rule list_all_update) (use ok in \<open>simp_all add: keyedOk_def storedAs_def\<close>)
qed

lemma step_invariants:
  assumes "indexesOk b \<and> retainedOk b \<and> keyedOk b \<and> arraysSorted b"
  shows "indexesOk (snd (step b c)) \<and> retainedOk (snd (step b c)) \<and>
         keyedOk (snd (step b c)) \<and> arraysSorted (snd (step b c))"
  using step_cases [of b c] assms
  by (auto intro: indexesOk_upsert retainedOk_upsert keyedOk_upsert arraysSorted_upsert
        indexesOk_sameDocs retainedOk_sameDocs keyedOk_sameDocs arraysSorted_sameDocs)

lemma run_invariants_from:
  "indexesOk b \<and> retainedOk b \<and> keyedOk b \<and> arraysSorted b \<Longrightarrow>
   indexesOk (snd (run b cs)) \<and> retainedOk (snd (run b cs)) \<and>
   keyedOk (snd (run b cs)) \<and> arraysSorted (snd (run b cs))"
proof (induction cs arbitrary: b)
  case Nil
  then show ?case by simp
next
  case (Cons c cs)
  show ?case unfolding run_Cons snd_conv
    by (rule Cons.IH) (rule step_invariants [OF Cons.prems])
qed

lemma run_invariants:
  "indexesOk (snd (run new_Bowl cs))" "retainedOk (snd (run new_Bowl cs))"
  "keyedOk (snd (run new_Bowl cs))" "arraysSorted (snd (run new_Bowl cs))"
  using run_invariants_from [of new_Bowl cs]
  by (simp_all add: indexesOk_new retainedOk_new keyedOk_new arraysSorted_new)

subsection \<open>The local indexes of a run\<close>

lemma upsert_next_index:
  assumes "saved (fst (upsert b d))"
  shows "localIndex (fst (snd (upsert b d))) = Some (highestLocalIndex b + 1) \<and>
         highestLocalIndex (snd (snd (upsert b d))) = highestLocalIndex b + 1"
proof (cases rule: upsert_cases [of b d])
  case rejected
  then show ?thesis using assms by (simp add: upsert_rejected)
next
  case throws
  then show ?thesis using assms by (simp add: upsert_throws saved_def)
next
  case accepted
  then show ?thesis by (simp add: upsert_wins_doc upsert_wins_highest storedAs_def)
qed

lemma upsert_stored:
  assumes ok: "retainedOk b"
  shows "map Some (map fst (docWithLocalIndex (snd (snd (upsert b d))))) =
     map Some (map fst (docWithLocalIndex b)) @
     assignedIndexes [(fst (upsert b d), fst (snd (upsert b d)))]"
proof (cases rule: upsert_cases [of b d])
  case rejected
  then show ?thesis by (simp add: upsert_rejected assignedIndexes_def)
next
  case throws
  then show ?thesis by (simp add: upsert_throws assignedIndexes_def saved_def)
next
  case accepted
  then show ?thesis
    by (simp add: upsert_accepted_byIndex [OF ok] upsert_wins_saved upsert_wins_doc
          assignedIndexes_def storedAs_def)
qed

lemma step_stored:
  assumes ok: "retainedOk b"
  shows "map Some (map fst (docWithLocalIndex (snd (step b c)))) =
     map Some (map fst (docWithLocalIndex b)) @
     assignedIndexes (case fst (step b c) of None \<Rightarrow> [] | Some x \<Rightarrow> [x])"
proof -
  from step_cases [of b c] show ?thesis
  proof
    assume "\<exists>d. step b c = (Some (fst (upsert b d), fst (snd (upsert b d))), snd (snd (upsert b d))) \<and>
        (unfrozenCalls [c] \<longrightarrow> \<not> frozen d)"
    then obtain d where
      s: "step b c = (Some (fst (upsert b d), fst (snd (upsert b d))), snd (snd (upsert b d)))"
      by blast
    show ?thesis unfolding s using upsert_stored [OF ok, of d] by simp
  next
    assume "\<exists>b'. step b c = (None, b') \<and> sameDocs b b'"
    then obtain b' where s: "step b c = (None, b')" and d: "sameDocs b b'" by blast
    show ?thesis unfolding s by (simp add: sameDocs_fields [OF d] assignedIndexes_Nil)
  qed
qed

lemma run_stored:
  "indexesOk b \<and> retainedOk b \<and> keyedOk b \<and> arraysSorted b \<Longrightarrow>
   map Some (map fst (docWithLocalIndex (snd (run b cs)))) =
     map Some (map fst (docWithLocalIndex b)) @ assignedIndexes (fst (run b cs))"
proof (induction cs arbitrary: b)
  case Nil
  show ?case by (simp add: assignedIndexes_Nil)
next
  case (Cons c cs)
  have r: "retainedOk b" using Cons.prems by simp
  show ?case
    unfolding run_Cons fst_conv snd_conv assignedIndexes_append
      Cons.IH [OF step_invariants [OF Cons.prems]] step_stored [OF r]
    by simp
qed

lemma stored_indexes:
  "assignedIndexes (fst (run new_Bowl cs)) =
     map Some (map fst (docWithLocalIndex (snd (run new_Bowl cs))))"
  using run_stored [of new_Bowl cs]
  by (simp add: indexesOk_new retainedOk_new keyedOk_new arraysSorted_new)
     (simp add: new_Bowl_def)

lemma assigned_increasing:
  "sorted_wrt indexLess (assignedIndexes (fst (run new_Bowl cs)))"
proof -
  have "sorted_wrt (<) (map fst (docWithLocalIndex (snd (run new_Bowl cs))))"
    using run_invariants(2) [of cs] by (simp add: retainedOk_def)
  then show ?thesis unfolding stored_indexes
    by (simp add: sorted_wrt_map indexLess_def)
qed

lemma upt_join: "i \<le> j \<Longrightarrow> j \<le> k \<Longrightarrow> [i..<j] @ [j..<k] = [i..<(k::nat)]"
  by (metis le_iff_add upt_add_eq_append)

lemma upsert_index:
  assumes "\<not> frozen d"
  shows "assignedIndexes [(fst (upsert b d), fst (snd (upsert b d)))] =
     map Some [Suc (highestLocalIndex b) ..< Suc (highestLocalIndex (snd (snd (upsert b d))))] \<and>
   highestLocalIndex b \<le> highestLocalIndex (snd (snd (upsert b d)))"
proof (cases "wins b d")
  case True
  then show ?thesis using assms
    by (simp add: assignedIndexes_def upsert_wins_saved upsert_wins_doc upsert_wins_highest
          storedAs_def)
next
  case False
  then show ?thesis by (simp add: assignedIndexes_def upsert_rejected)
qed

lemma step_index:
  assumes "unfrozenCalls [c]"
  shows "assignedIndexes (case fst (step b c) of None \<Rightarrow> [] | Some x \<Rightarrow> [x]) =
     map Some [Suc (highestLocalIndex b) ..< Suc (highestLocalIndex (snd (step b c)))] \<and>
   highestLocalIndex b \<le> highestLocalIndex (snd (step b c))"
  using step_cases [of b c] upsert_index [of _ b] assms
  by (auto simp: sameDocs_def assignedIndexes_Nil)

lemma unfrozenCalls_Cons: "unfrozenCalls (c # cs) \<longleftrightarrow> unfrozenCalls [c] \<and> unfrozenCalls cs"
  by (cases c) simp_all

lemma run_index:
  "unfrozenCalls cs \<Longrightarrow>
   assignedIndexes (fst (run b cs)) =
     map Some [Suc (highestLocalIndex b) ..< Suc (highestLocalIndex (snd (run b cs)))] \<and>
   highestLocalIndex b \<le> highestLocalIndex (snd (run b cs))"
proof (induction cs arbitrary: b)
  case Nil
  show ?case by (simp add: assignedIndexes_Nil)
next
  case (Cons c cs)
  let ?b = "snd (step b c)"
  from Cons.prems have uc: "unfrozenCalls [c]" and ucs: "unfrozenCalls cs"
    unfolding unfrozenCalls_Cons [of c cs] by simp_all
  have r: "run b (c # cs) =
      ((case fst (step b c) of None \<Rightarrow> [] | Some x \<Rightarrow> [x]) @ fst (run ?b cs), snd (run ?b cs))"
    by (rule run_Cons)
  have le1: "highestLocalIndex b \<le> highestLocalIndex ?b" using step_index [OF uc] by blast
  have le2: "highestLocalIndex ?b \<le> highestLocalIndex (snd (run ?b cs))"
    using Cons.IH [OF ucs] by blast
  have j: "[Suc (highestLocalIndex b) ..< Suc (highestLocalIndex ?b)] @
        [Suc (highestLocalIndex ?b) ..< Suc (highestLocalIndex (snd (run ?b cs)))] =
        [Suc (highestLocalIndex b) ..< Suc (highestLocalIndex (snd (run ?b cs)))]"
    by (rule upt_join) (use le1 le2 in simp_all)
  have e1: "assignedIndexes (case fst (step b c) of None \<Rightarrow> [] | Some x \<Rightarrow> [x]) =
      map Some [Suc (highestLocalIndex b) ..< Suc (highestLocalIndex ?b)]"
    using step_index [OF uc] by blast
  have e2: "assignedIndexes (fst (run ?b cs)) =
      map Some [Suc (highestLocalIndex ?b) ..< Suc (highestLocalIndex (snd (run ?b cs)))]"
    using Cons.IH [OF ucs] by blast
  have "assignedIndexes (fst (run b (c # cs))) =
      map Some [Suc (highestLocalIndex b) ..< Suc (highestLocalIndex (snd (run b (c # cs))))]"
    by (simp only: r fst_conv snd_conv assignedIndexes_append e1 e2 j flip: map_append)
  moreover have "highestLocalIndex b \<le> highestLocalIndex (snd (run b (c # cs)))"
    using le1 le2 by (simp only: r snd_conv)
  ultimately show ?case by blast
qed

lemma localIndexes_unfrozen:
  "unfrozenCalls cs \<Longrightarrow>
   assignedIndexes (fst (run new_Bowl cs)) =
     map Some [1 ..< Suc (highestLocalIndex (snd (run new_Bowl cs)))]"
  using run_index [of cs new_Bowl] by (simp add: new_Bowl_def)

subsection \<open>When \<^verbatim>\<open>upsert\<close> answers \<^verbatim>\<open>Obsolete\<close>\<close>

lemma split_at_first:
  "x \<notin> set p \<Longrightarrow> x \<notin> set q \<Longrightarrow> p @ x # a = q @ x # b \<Longrightarrow> p = q \<and> a = b"
proof (induction p arbitrary: q)
  case Nil
  then show ?case by (cases q) auto
next
  case (Cons y p)
  then show ?case by (cases q) auto
qed

lemma split_at_last:
  assumes "x \<notin> set a" and "x \<notin> set a'" and "p @ x # a = q @ x # a'"
  shows "p = q \<and> a = a'"
proof -
  from assms(3) have "rev (p @ x # a) = rev (q @ x # a')" by simp
  then have "rev a @ x # rev p = rev a' @ x # rev q" by simp
  moreover have "x \<notin> set (rev a)" "x \<notin> set (rev a')" using assms(1,2) by simp_all
  ultimately have "rev a = rev a' \<and> rev p = rev q" by (intro split_at_first)
  then show ?thesis by simp
qed

lemma combine_inj:
  "CHR ''|'' \<notin> set (author d) \<Longrightarrow> CHR ''|'' \<notin> set (author e) \<Longrightarrow>
   combinePathAndAuthor d = combinePathAndAuthor e \<Longrightarrow> path d = path e \<and> author d = author e"
  unfolding combinePathAndAuthor_def by (rule split_at_last) simp_all

lemma overwriteKeyLess_asym: "overwriteKeyLess a b \<Longrightarrow> \<not> overwriteKeyLess b a"
  by (auto simp: overwriteKeyLess_def)

lemma upsert_wins_outcome:
  "wins b d \<Longrightarrow> fst (upsert b d) = Inl TypeError \<or> saved (fst (upsert b d))"
  by (cases "frozen d") (simp_all add: upsert_throws upsert_wins_saved)

lemma upsert_Obsolete_iff:
  "fst (upsert b d) = Inr Obsolete \<longleftrightarrow>
     (\<exists>e. map_of (docWithPathAndAuthor b) (combinePathAndAuthor d) = Some e \<and>
          overwriteKeyLess d e)"
proof (cases "wins b d")
  case True
  then have "fst (upsert b d) \<noteq> Inr Obsolete"
    using upsert_wins_outcome [of b d] by (auto simp: saved_def)
  moreover have "\<not> (\<exists>e. map_of (docWithPathAndAuthor b) (combinePathAndAuthor d) = Some e \<and>
          overwriteKeyLess d e)"
    using True by (auto simp: wins_def overwrite_GT dest: overwriteKeyLess_asym)
  ultimately show ?thesis by blast
next
  case False
  then obtain e where e: "map_of (docWithPathAndAuthor b) (combinePathAndAuthor d) = Some e"
    and n: "docCompareForOverwrite d e \<noteq> GT"
    unfolding not_wins_iff by blast
  from upsert_not_wins [OF e n] show ?thesis using e by (auto simp: overwrite_LT)
qed

lemma upsert_not_saved_unchanged:
  assumes "fst (upsert b d) = Inr Obsolete \<or> fst (upsert b d) = Inr AlreadyHadIt \<or>
           fst (upsert b d) = Inr Invalid"
  shows "snd (upsert b d) = (d, b)"
proof (cases "wins b d")
  case True
  then show ?thesis using upsert_wins_outcome [of b d] assms by (auto simp: saved_def)
next
  case False
  then show ?thesis by (simp add: upsert_rejected)
qed

lemma Obsolete_same_path_author:
  assumes ok: "indexesOk b" and r: "retainedOk b"
    and pd: "CHR ''|'' \<notin> set (author d)"
    and pb: "list_all (\<lambda>e. CHR ''|'' \<notin> set (author e)) (getAllDocs b False)"
  shows "fst (upsert b d) = Inr Obsolete \<longleftrightarrow>
     list_ex (\<lambda>e. path e = path d \<and> author e = author d \<and> overwriteKeyLess d e)
       (getAllDocs b False)"
proof
  assume "fst (upsert b d) = Inr Obsolete"
  then obtain e where e: "map_of (docWithPathAndAuthor b) (combinePathAndAuthor d) = Some e"
    and lt: "overwriteKeyLess d e"
    unfolding upsert_Obsolete_iff by blast
  have k: "combinePathAndAuthor d = combinePathAndAuthor e"
    using map_of_list_all [OF e, of "\<lambda>(k, e). k = combinePathAndAuthor e"] ok
    by (simp add: indexesOk_def)
  have m: "e \<in> set (getAllDocs b False)"
    using map_of_list_all [OF e, of "\<lambda>(k, e'). e' \<in> set (map snd (docWithLocalIndex b))"] r
    by (simp add: retainedOk_def getAllDocs_def)
  then have "CHR ''|'' \<notin> set (author e)" using pb by (simp add: list_all_iff)
  from combine_inj [OF pd this k] lt m
  show "list_ex (\<lambda>e. path e = path d \<and> author e = author d \<and> overwriteKeyLess d e)
       (getAllDocs b False)"
    by (auto simp: list_ex_iff)
next
  assume "list_ex (\<lambda>e. path e = path d \<and> author e = author d \<and> overwriteKeyLess d e)
       (getAllDocs b False)"
  then obtain i e where m: "(i, e) \<in> set (docWithLocalIndex b)"
    and p: "path e = path d" "author e = author d" and lt: "overwriteKeyLess d e"
    by (auto simp: list_ex_iff getAllDocs_def)
  have k: "combinePathAndAuthor e = combinePathAndAuthor d"
    using p by (simp add: combinePathAndAuthor_def)
  from r m obtain e' where e': "map_of (docWithPathAndAuthor b) (combinePathAndAuthor e) = Some e'"
    and le: "e' = e \<or> overwriteKeyLess e e'"
    by (auto simp: retainedOk_def list_all_iff split: option.splits)
  from le lt have "overwriteKeyLess d e'" by (auto intro: overwriteKeyLess_trans)
  with e' k show "fst (upsert b d) = Inr Obsolete"
    unfolding upsert_Obsolete_iff by auto
qed

lemma Obsolete_in_run:
  assumes "CHR ''|'' \<notin> set (author d)"
    and "list_all (\<lambda>e. CHR ''|'' \<notin> set (author e)) (getAllDocs (snd (run new_Bowl cs)) False)"
  shows "fst (upsert (snd (run new_Bowl cs)) d) = Inr Obsolete \<longleftrightarrow>
     list_ex (\<lambda>e. path e = path d \<and> author e = author d \<and> overwriteKeyLess d e)
       (getAllDocs (snd (run new_Bowl cs)) False)"
  by (rule Obsolete_same_path_author [OF run_invariants(1) run_invariants(2) assms])

subsection \<open>Queries\<close>

lemma beforeStartAt_None: "beforeStartAt ord None d = False"
  by (simp add: beforeStartAt_def)

lemma queryLoop_all: "queryLoop ord None None None docs acc = acc @ docs"
  by (induction docs arbitrary: acc) (simp_all add: beforeStartAt_None)

lemma queryDocs_empty:
  "queryDocs b None = array_sort docComparePathThenNewestFirst (getLatestDocs b False)"
  "queryDocs b (Some emptyQuery) =
     array_sort docComparePathThenNewestFirst (getLatestDocs b False)"
  by (simp_all add: queryDocs_def emptyQuery_def queryLoop_all)

lemma latest_paths:
  "list_all (\<lambda>(p, docs). docs \<noteq> [] \<and> list_all (\<lambda>x. path x = p) docs) al \<Longrightarrow>
   map path (concat (map (\<lambda>(p, docArray). take 1 docArray) al)) = map fst al"
proof (induction al)
  case Nil
  show ?case by simp
next
  case (Cons a al)
  obtain p docs where a: "a = (p, docs)" by (cases a)
  from Cons.prems a obtain x rest where d: "docs = x # rest" and px: "path x = p"
    by (cases docs) auto
  from Cons.prems have "list_all (\<lambda>(p, docs). docs \<noteq> [] \<and> list_all (\<lambda>x. path x = p) docs) al"
    by simp
  from Cons.IH [OF this] show ?case by (simp add: a d px)
qed

lemma getLatestDocs_paths:
  assumes "indexesOk b"
  shows "map path (getLatestDocs b False) = map fst (docsByPathNewestFirst b)"
proof -
  from assms have la: "list_all (\<lambda>(p, docs). docs \<noteq> [] \<and> list_all (\<lambda>x. path x = p) docs)
        (docsByPathNewestFirst b)"
    by (simp add: indexesOk_def)
  show ?thesis
    by (simp only: getLatestDocs_def Let_def if_False latest_paths [OF la])
qed

lemma sortedUnique_set: "set xs = set ys \<Longrightarrow> sortedUnique xs = sortedUnique ys"
  unfolding sortedUnique_def
  by (rule sorted_distinct_set_unique) simp_all

lemma sortedUnique_distinct: "distinct xs \<Longrightarrow> array_sort baseCompare xs = sortedUnique xs"
  unfolding sortedUnique_def
  by (rule sorted_distinct_set_unique)
     (simp_all add: sorted_array_sort_base distinct_array_sort set_array_sort)

lemma queryPaths_no_query:
  assumes ok: "indexesOk b" and q: "q = None \<or> q = Some emptyQuery"
  shows "queryPaths b q = sortedUnique (map path (queryDocs b q))"
proof -
  have d: "distinct (map fst (docsByPathNewestFirst b))" using ok by (simp add: indexesOk_def)
  have "set (map path (queryDocs b q)) = set (map fst (docsByPathNewestFirst b))"
    using q getLatestDocs_paths [OF ok, symmetric]
    by (auto simp: queryDocs_empty set_array_sort)
  then have "sortedUnique (map path (queryDocs b q)) = sortedUnique (map fst (docsByPathNewestFirst b))"
    by (rule sortedUnique_set)
  moreover have "queryPaths b q = array_sort baseCompare (map fst (docsByPathNewestFirst b))"
    using q by (auto simp: queryPaths_def emptyQuery_def)
  ultimately show ?thesis using sortedUnique_distinct [OF d] by simp
qed

lemma queryPaths_query:
  assumes "q \<noteq> None" "q \<noteq> Some emptyQuery"
  shows "queryPaths b q =
     (if (case q of Some q' \<Rightarrow> orderBy q' = Some PathDESC | None \<Rightarrow> False)
      then rev (sortedUnique (map path (queryDocs b q)))
      else sortedUnique (map path (queryDocs b q)))"
  using assms by (cases q) (simp_all add: queryPaths_def sort_new_Set)

subsection \<open>Two documents at one path\<close>

lemma wins_new: "wins new_Bowl d"
  by (simp add: wins_def new_Bowl_def)

lemma pushAndSort_Nil: "pushAndSort [] d = [(d, True)]"
  by (simp add: pushAndSort_def array_sort_single)

lemma pushAndSort_single:
  "docComparePathThenNewestFirst d a \<noteq> LT \<Longrightarrow> pushAndSort [a] d = [(a, False), (d, True)]"
  by (simp add: pushAndSort_def array_sort_two)

lemma first_upsert_byPath:
  "\<not> frozen d \<Longrightarrow>
   docsByPathNewestFirst (snd (snd (upsert new_Bowl d))) = [(path d, [storedAs 1 d])]"
  unfolding upsert_wins_byPath [OF wins_new]
  by (simp add: pushAndSort_Nil new_Bowl_def)

lemma two_upserts_latest:
  assumes p: "path dA = path dB" and t: "timestamp dA = timestamp dB" and f: "\<not> frozen dA"
  shows "getLatestDocAtPath (snd (run new_Bowl [Upsert dA, Upsert dB])) (path dA) =
           Some (storedAs 1 dA)"
proof -
  let ?b1 = "snd (snd (upsert new_Bowl dA))"
  let ?a = "storedAs 1 dA"
  have r: "snd (run new_Bowl [Upsert dA, Upsert dB]) = snd (snd (upsert ?b1 dB))"
    by (simp add: step_def split: prod.splits)
  have b1: "docsByPathNewestFirst ?b1 = [(path dA, [?a])]"
    by (rule first_upsert_byPath [OF f])
  have old: "(case map_of (docsByPathNewestFirst ?b1) (path dB) of
               None \<Rightarrow> [] | Some old \<Rightarrow> old) = [?a]"
    using p by (simp add: b1)
  have l1: "getLatestDocAtPath ?b1 (path dA) = Some ?a"
    by (simp add: getLatestDocAtPath_def b1)
  from upsert_byPath_cases [of ?b1 dB] show ?thesis
  proof
    assume "docsByPathNewestFirst (snd (snd (upsert ?b1 dB))) = docsByPathNewestFirst ?b1"
    then show ?thesis unfolding r using l1 by (simp add: getLatestDocAtPath_def)
  next
    assume "\<exists>docs e. sameKey e dB \<and>
      (case map_of (docsByPathNewestFirst ?b1) (path dB) of None \<Rightarrow> [] | Some old \<Rightarrow> old) = docs \<and>
      docsByPathNewestFirst (snd (snd (upsert ?b1 dB))) =
        AList.update (path dB) (map fst (pushAndSort docs e)) (docsByPathNewestFirst ?b1)"
    then obtain e where ke: "sameKey e dB"
      and eq: "docsByPathNewestFirst (snd (snd (upsert ?b1 dB))) =
        AList.update (path dB) (map fst (pushAndSort [?a] e)) (docsByPathNewestFirst ?b1)"
      unfolding old by blast
    have "path e = path ?a" "timestamp e = timestamp ?a"
      using ke p t by (simp_all add: sameKey_def storedAs_def)
    then have "docComparePathThenNewestFirst e ?a \<noteq> LT"
      by (simp add: cmp_LT_same_path)
    then have "map fst (pushAndSort [?a] e) = [?a, e]"
      by (simp add: pushAndSort_single)
    then have "docsByPathNewestFirst (snd (snd (upsert ?b1 dB))) = [(path dA, [?a, e])]"
      unfolding eq b1 using p by simp
    then show ?thesis unfolding r by (simp add: getLatestDocAtPath_def)
  qed
qed

lemma newestFirst_hd:
  "newestFirst (x # xs) \<Longrightarrow> list_all (\<lambda>y. timestamp y \<le> timestamp x) (x # xs)"
  by (simp add: newestFirst_def list_all_iff)

subsection \<open>The filter, the clock and the followers\<close>

lemma docMatchesFilter_iff:
  "docMatchesFilter d f \<longleftrightarrow>
     (case filter_path f of Some v \<Rightarrow> path d = v | None \<Rightarrow> True) \<and>
     (case filter_pathStartsWith f of Some v \<Rightarrow> prefix v (path d) | None \<Rightarrow> True) \<and>
     (case filter_pathEndsWith f of Some v \<Rightarrow> prefix v (path d) | None \<Rightarrow> True) \<and>
     (case filter_author f of Some v \<Rightarrow> author d = v | None \<Rightarrow> True) \<and>
     (case filter_timestamp f of Some v \<Rightarrow> timestamp d = v | None \<Rightarrow> True) \<and>
     (case filter_timestampGt f of Some v \<Rightarrow> v < timestamp d | None \<Rightarrow> True) \<and>
     (case filter_timestampLt f of Some v \<Rightarrow> v < timestamp d | None \<Rightarrow> True) \<and>
     (case filter_contentLength f of Some v \<Rightarrow> contentLength d = v | None \<Rightarrow> True) \<and>
     (case filter_contentLengthGt f of Some v \<Rightarrow> v < contentLength d | None \<Rightarrow> True) \<and>
     (case filter_contentLengthLt f of Some v \<Rightarrow> v < contentLength d | None \<Rightarrow> True)"
  unfolding docMatchesFilter_def by (simp split: option.splits)

lemma upsert_doc_timestamp: "timestamp (fst (snd (upsert b d))) = timestamp d"
proof (cases rule: upsert_cases [of b d])
  case rejected
  then show ?thesis by (simp add: upsert_rejected)
next
  case throws
  then show ?thesis by (simp add: upsert_throws)
next
  case accepted
  then show ?thesis by (simp add: upsert_wins_doc storedAs_def)
qed

lemma writeDoc_timestamp:
  "timestamp (fst (snd (writeDoc env b keypair w))) =
     (case getLatestDocAtPath b (toWrite_path w) of
        None \<Rightarrow> now env
      | Some e \<Rightarrow> timestamp e + 1)"
proof -
  obtain d where "writeDoc env b keypair w = upsert b d"
    and "timestamp d = (case getLatestDocAtPath b (toWrite_path w) of
                        None \<Rightarrow> now env | Some e \<Rightarrow> timestamp e + 1)"
    using writeDoc_upsert by blast
  then show ?thesis by (simp add: upsert_doc_timestamp)
qed

lemma getAllDocs_length:
  "length (getAllDocs (snd (run new_Bowl cs)) srt) =
     length (assignedIndexes (fst (run new_Bowl cs)))"
  unfolding stored_indexes by (simp add: getAllDocs_def Let_def length_array_sort)

lemma arrays_nonempty:
  "list_all (\<lambda>(p, docs). docs \<noteq> []) (docsByPathNewestFirst (snd (run new_Bowl cs)))"
  using run_invariants(1) [of cs] unfolding indexesOk_def
  by (auto simp: list_all_iff)

lemma continueAsyncFollower_nextIndex:
  assumes "continueAsyncFollower i b = Inr b'"
  shows "map nextIndex (followers b') = map nextIndex (followers b)"
  using assms
  by (auto simp: continueAsyncFollower_def Let_def map_update list_update_same_conv
           split: if_splits)

lemma continueAsyncFollower_running:
  assumes "i < length (followers b)" and "state (followers b ! i) = Some Running"
    and "nextIndex (followers b ! i) \<le> highestLocalIndex b"
  shows "\<exists>b'. continueAsyncFollower i b = Inr b' \<and>
           state (followers b' ! i) = Some Running \<and>
           cb_calls (followers b' ! i) =
             cb_calls (followers b ! i) @
             getDocsSinceLocalIndex b (nextIndex (followers b ! i)) (Some 40) \<and>
           immediates b' = immediates b @ [i]"
  using assms by (simp add: continueAsyncFollower_def Let_def)

lemma addFollower_sync:
  "kind f = Sync \<Longrightarrow>
   followers (addFollower b f) =
     followers b @
       [f\<lparr>cb_calls := cb_calls f @ getDocsSinceLocalIndex b (nextIndex f) None,
          state := Some Sleeping\<rparr>]"
  by (simp add: addFollower_def Let_def)

lemma getDocsLoop_None:
  "getDocsLoop b None ii docs =
     docs @ List.map_filter (map_of (docWithLocalIndex b)) [ii ..< Suc (highestLocalIndex b)]"
proof (induction "Suc (highestLocalIndex b) - ii" arbitrary: ii docs)
  case 0
  then have "\<not> ii \<le> highestLocalIndex b" by simp
  then show ?case
    by (subst getDocsLoop.simps) (simp add: map_filter_simps del: upt_Suc)
next
  case (Suc n)
  then have le: "ii \<le> highestLocalIndex b" and n: "n = Suc (highestLocalIndex b) - Suc ii"
    by simp_all
  have u: "[ii ..< Suc (highestLocalIndex b)] = ii # [Suc ii ..< Suc (highestLocalIndex b)]"
    by (rule upt_conv_Cons) (use le in simp)
  have ih: "getDocsLoop b None (Suc ii) docs' =
     docs' @ List.map_filter (map_of (docWithLocalIndex b)) [Suc ii ..< Suc (highestLocalIndex b)]"
    for docs'
    by (rule Suc.hyps(1) [OF n])
  show ?case
  proof (cases "map_of (docWithLocalIndex b) ii")
    case None
    then show ?thesis
      by (subst getDocsLoop.simps) (simp add: le u ih map_filter_simps del: upt_Suc)
  next
    case (Some d)
    then show ?thesis
      by (subst getDocsLoop.simps) (simp add: le u ih map_filter_simps del: upt_Suc)
  qed
qed

lemma getDocsSinceLocalIndex_None:
  "getDocsSinceLocalIndex b n None =
     List.map_filter (map_of (docWithLocalIndex b)) [n ..< Suc (highestLocalIndex b)]"
  by (simp add: getDocsSinceLocalIndex_def getDocsLoop_None)

subsection \<open>Catching up a sync follower\<close>

lemma map_filter_indexes:
  assumes keyed: "list_all (\<lambda>(i, e). localIndex e = Some i) al"
  shows "map localIndex (List.map_filter (map_of al) xs) =
           map Some (filter (\<lambda>i. i \<in> set (map fst al)) xs)"
proof (induction xs)
  case Nil
  show ?case by (simp add: map_filter_simps)
next
  case (Cons x xs)
  show ?case
  proof (cases "x \<in> set (map fst al)")
    case True
    then obtain e where e: "map_of al x = Some e"
      by (metis map_of_eq_None_iff not_Some_eq set_map)
    from map_of_list_all [OF e keyed] have "localIndex e = Some x" by simp
    then show ?thesis using True e Cons.IH by (simp add: map_filter_simps)
  next
    case False
    then have "map_of al x = None" by (simp add: map_of_eq_None_iff)
    then show ?thesis using False Cons.IH by (simp add: map_filter_simps)
  qed
qed

lemma filter_keys_range:
  assumes s: "sorted_wrt (<) (keys :: nat list)" and b: "\<forall>i\<in>set keys. i \<le> h"
  shows "filter (\<lambda>i. i \<in> set keys) [n ..< Suc h] = filter (\<lambda>i. n \<le> i) keys"
proof (rule sorted_distinct_set_unique)
  from s have sk: "sorted keys" and dk: "distinct keys"
    by (simp_all add: strict_sorted_iff)
  show "sorted (filter (\<lambda>i. i \<in> set keys) [n ..< Suc h])"
    by (rule sorted_wrt_filter) (rule sorted_upt)
  show "distinct (filter (\<lambda>i. i \<in> set keys) [n ..< Suc h])"
    by (rule distinct_filter) (rule distinct_upt)
  show "sorted (filter (\<lambda>i. n \<le> i) keys)" using sk by (rule sorted_wrt_filter)
  show "distinct (filter (\<lambda>i. n \<le> i) keys)" using dk by (rule distinct_filter)
  show "set (filter (\<lambda>i. i \<in> set keys) [n ..< Suc h]) = set (filter (\<lambda>i. n \<le> i) keys)"
    using b by auto
qed

lemma getDocsSince_indexes:
  "map localIndex (getDocsSinceLocalIndex (snd (run new_Bowl cs)) n None) =
     map Some (filter (\<lambda>i. n \<le> i) (map fst (docWithLocalIndex (snd (run new_Bowl cs)))))"
proof -
  let ?b = "snd (run new_Bowl cs)"
  have s: "sorted_wrt (<) (map fst (docWithLocalIndex ?b))"
    and bnd: "\<forall>i\<in>set (map fst (docWithLocalIndex ?b)). i \<le> highestLocalIndex ?b"
    using run_invariants(2) [of cs] by (simp_all add: retainedOk_def list_all_iff)
  have keyed: "list_all (\<lambda>(i, e). localIndex e = Some i) (docWithLocalIndex ?b)"
    using run_invariants(3) [of cs] by (simp add: keyedOk_def)
  show ?thesis
    by (simp only: getDocsSinceLocalIndex_None map_filter_indexes [OF keyed]
          filter_keys_range [OF s bnd])
qed

lemma addFollower_sync_calls:
  assumes "kind f = Sync" and "cb_calls f = []"
  shows "\<exists>f'. followers (addFollower (snd (run new_Bowl cs)) f) =
                  followers (snd (run new_Bowl cs)) @ [f'] \<and>
              map localIndex (cb_calls f') =
                map Some (filter (\<lambda>i. nextIndex f \<le> i)
                            (map fst (docWithLocalIndex (snd (run new_Bowl cs))))) \<and>
              nextIndex f' = nextIndex f \<and> kind f' = Sync \<and> state f' = Some Sleeping"
  using assms by (simp add: addFollower_sync getDocsSince_indexes)

subsection \<open>The followers in a run\<close>

lemma run_snoc: "snd (run b (cs @ [c])) = snd (step (snd (run b cs)) c)"
  by (induction cs arbitrary: b) (simp_all add: case_prod_beta)

lemma freshFollowers_snoc:
  "freshFollowers (cs @ [c]) \<longleftrightarrow>
     freshFollowers cs \<and> (case c of AddFollower f \<Rightarrow> cb_calls f = [] | _ \<Rightarrow> True)"
proof (induction cs)
  case Nil
  show ?case by (cases c) simp_all
next
  case (Cons a cs)
  then show ?case by (cases a) simp_all
qed

lemma updateFollowers_fst: "fst (updateFollowers h d i fs) = map (afterUpsert h d) fs"
  by (induction fs arbitrary: i)
     (simp_all add: afterUpsert_def wakeAsyncFollower_def Let_def case_prod_beta)

lemma updateFollowers_snd:
  "j \<in> set (snd (updateFollowers h d i fs)) \<Longrightarrow>
   i \<le> j \<and> j < i + length fs \<and> kind (fs ! (j - i)) = Async"
proof (induction fs arbitrary: i)
  case Nil
  then show ?case by simp
next
  case (Cons f fs)
  show ?case
  proof (cases "j = i \<and> kind f \<noteq> Sync")
    case True
    then show ?thesis by (cases "kind f") simp_all
  next
    case False
    then have "j \<in> set (snd (updateFollowers h d (i + 1) fs))"
      using Cons.prems
      by (auto simp: wakeAsyncFollower_def Let_def case_prod_beta split: if_splits)
    from Cons.IH [OF this] show ?thesis by (auto simp: nth_Cons')
  qed
qed

lemma kind_afterUpsert: "kind (afterUpsert h d f) = kind f"
  by (simp add: afterUpsert_def)

lemma calls_extend:
  assumes c: "map localIndex calls = map Some (filter (\<lambda>i. m \<le> i) keys)"
    and b: "\<forall>i\<in>set keys. i \<le> h" and d: "localIndex d = Some (Suc h)"
  shows "\<exists>m'. map localIndex (calls @ [d]) = map Some (filter (\<lambda>i. m' \<le> i) (keys @ [Suc h]))"
proof (cases "m \<le> Suc h")
  case True
  then have "map localIndex (calls @ [d]) = map Some (filter (\<lambda>i. m \<le> i) (keys @ [Suc h]))"
    using c d by simp
  then show ?thesis by blast
next
  case False
  then have "filter (\<lambda>i. m \<le> i) keys = []" using b by (auto simp: filter_empty_conv)
  moreover have "filter (\<lambda>i. Suc h \<le> i) keys = []" using b by (auto simp: filter_empty_conv)
  ultimately have "map localIndex (calls @ [d]) =
      map Some (filter (\<lambda>i. Suc h \<le> i) (keys @ [Suc h]))"
    using c d by simp
  then show ?thesis by blast
qed

lemma followersOk_upsert:
  assumes ok: "followersOk b" and r: "retainedOk b"
  shows "followersOk (snd (snd (upsert b d)))"
proof (cases rule: upsert_cases [of b d])
  case rejected
  then show ?thesis using ok by (simp add: upsert_rejected)
next
  case throws
  then show ?thesis using ok by (simp add: upsert_throws followersOk_def)
next
  case accepted
  let ?h = "Suc (highestLocalIndex b)"
  let ?d = "storedAs ?h d"
  let ?woken = "snd (updateFollowers ?h ?d 0 (followers b))"
  have F: "followers (snd (snd (upsert b d))) = map (afterUpsert ?h ?d) (followers b)"
    and I: "immediates (snd (snd (upsert b d))) = immediates b @ ?woken"
    using upsert_wins_followers [OF accepted] by (simp_all add: updateFollowers_fst)
  have L: "docWithLocalIndex (snd (snd (upsert b d))) = docWithLocalIndex b @ [(?h, ?d)]"
    by (rule upsert_accepted_byIndex [OF r accepted])
  have bnd: "\<forall>i\<in>set (map fst (docWithLocalIndex b)). i \<le> highestLocalIndex b"
    using r by (simp add: retainedOk_def list_all_iff)
  have old: "\<forall>i\<in>set (immediates b). i < length (followers b) \<and> kind (followers b ! i) = Async"
    and sync: "\<forall>f\<in>set (followers b). kind f = Sync \<longrightarrow>
          (\<exists>m. map localIndex (cb_calls f) =
                 map Some (filter (\<lambda>i. m \<le> i) (map fst (docWithLocalIndex b))))"
    using ok by (simp_all add: followersOk_def list_all_iff)
  have new: "\<forall>i\<in>set ?woken. i < length (followers b) \<and> kind (followers b ! i) = Async"
    using updateFollowers_snd [of _ ?h ?d 0 "followers b"] by auto
  have 1: "\<forall>i\<in>set (immediates b @ ?woken).
             i < length (map (afterUpsert ?h ?d) (followers b)) \<and>
             kind (map (afterUpsert ?h ?d) (followers b) ! i) = Async"
    using old new by (auto simp: kind_afterUpsert)
  have 2: "\<forall>f\<in>set (map (afterUpsert ?h ?d) (followers b)). kind f = Sync \<longrightarrow>
          (\<exists>m. map localIndex (cb_calls f) =
                 map Some (filter (\<lambda>i. m \<le> i) (map fst (docWithLocalIndex b @ [(?h, ?d)]))))"
  proof (intro ballI impI)
    fix f' assume "f' \<in> set (map (afterUpsert ?h ?d) (followers b))" and k: "kind f' = Sync"
    then obtain f where f: "f \<in> set (followers b)" and e: "f' = afterUpsert ?h ?d f" by auto
    from k e have kf: "kind f = Sync" by (simp add: kind_afterUpsert)
    with sync f obtain m where m: "map localIndex (cb_calls f) =
        map Some (filter (\<lambda>i. m \<le> i) (map fst (docWithLocalIndex b)))"
      by blast
    have ld: "localIndex ?d = Some ?h" by (simp add: storedAs_def)
    from calls_extend [OF m bnd ld]
    have "\<exists>m'. map localIndex (cb_calls f @ [?d]) =
        map Some (filter (\<lambda>i. m' \<le> i) (map fst (docWithLocalIndex b) @ [?h]))" .
    then show "\<exists>m. map localIndex (cb_calls f') =
        map Some (filter (\<lambda>i. m \<le> i) (map fst (docWithLocalIndex b @ [(?h, ?d)])))"
      using e kf by (simp add: afterUpsert_def)
  qed
  show ?thesis unfolding followersOk_def F I L list_all_iff using 1 2 by blast
qed

lemma followersOk_new: "followersOk new_Bowl"
  by (simp add: followersOk_def new_Bowl_def)

lemma followersOk_onWrite: "followersOk b \<Longrightarrow> followersOk (onWrite b)"
  by (simp add: followersOk_def onWrite_def)

lemma followersOk_addFollower:
  assumes ok: "followersOk (snd (run new_Bowl cs))" and fresh: "cb_calls f = []"
  shows "followersOk (addFollower (snd (run new_Bowl cs)) f)"
proof -
  let ?b = "snd (run new_Bowl cs)"
  have old: "\<forall>i\<in>set (immediates ?b). i < length (followers ?b) \<and> kind (followers ?b ! i) = Async"
    and sync: "\<forall>g\<in>set (followers ?b). kind g = Sync \<longrightarrow>
          (\<exists>m. map localIndex (cb_calls g) =
                 map Some (filter (\<lambda>i. m \<le> i) (map fst (docWithLocalIndex ?b))))"
    using ok by (simp_all add: followersOk_def list_all_iff)
  have L: "docWithLocalIndex (addFollower ?b f) = docWithLocalIndex ?b"
    using sameDocs_fields(2) [OF sameDocs_addFollower] .
  show ?thesis
  proof (cases "kind f")
    case Sync
    from addFollower_sync_calls [OF Sync fresh, of cs]
    obtain f' where F: "followers (addFollower ?b f) = followers ?b @ [f']"
      and c: "map localIndex (cb_calls f') =
                map Some (filter (\<lambda>i. nextIndex f \<le> i) (map fst (docWithLocalIndex ?b)))"
      by blast
    have I: "immediates (addFollower ?b f) = immediates ?b"
      using Sync by (simp_all add: addFollower_def Let_def)
    have 1: "\<forall>i\<in>set (immediates ?b). i < length (followers ?b @ [f']) \<and>
               kind ((followers ?b @ [f']) ! i) = Async"
      using old by (auto simp: nth_append)
    have 2: "\<forall>g\<in>set (followers ?b @ [f']). kind g = Sync \<longrightarrow>
          (\<exists>m. map localIndex (cb_calls g) =
                 map Some (filter (\<lambda>i. m \<le> i) (map fst (docWithLocalIndex ?b))))"
      using sync c by auto
    show ?thesis unfolding followersOk_def F I L list_all_iff using 1 2 by blast
  next
    case Async
    let ?f = "f\<lparr>state := Some Running\<rparr>"
    have F: "followers (addFollower ?b f) = followers ?b @ [?f]"
      and I: "immediates (addFollower ?b f) = immediates ?b @ [length (followers ?b)]"
      using Async by (simp_all add: addFollower_def Let_def wakeAsyncFollower_def)
    have 1: "\<forall>i\<in>set (immediates ?b @ [length (followers ?b)]).
               i < length (followers ?b @ [?f]) \<and> kind ((followers ?b @ [?f]) ! i) = Async"
      using old Async by (auto simp: nth_append)
    have 2: "\<forall>g\<in>set (followers ?b @ [?f]). kind g = Sync \<longrightarrow>
          (\<exists>m. map localIndex (cb_calls g) =
                 map Some (filter (\<lambda>i. m \<le> i) (map fst (docWithLocalIndex ?b))))"
      using sync Async by auto
    show ?thesis unfolding followersOk_def F I L list_all_iff using 1 2 by blast
  qed
qed

lemma continueAsyncFollower_cases:
  assumes "continueAsyncFollower i b = Inr b'" and "i < length (followers b)"
  shows "b' = b \<or>
         (\<exists>g. kind g = kind (followers b ! i) \<and> followers b' = (followers b)[i := g] \<and>
              highestLocalIndex b' = highestLocalIndex b \<and>
              set (immediates b') \<subseteq> insert i (set (immediates b)))"
proof -
  let ?f = "followers b ! i"
  consider (same) "b' = b"
    | (sleep) "b' = b\<lparr>followers := (followers b)[i := ?f\<lparr>state := Some Sleeping\<rparr>]\<rparr>"
    | (batch) "b' = b\<lparr>followers := (followers b)[i := ?f\<lparr>cb_calls := cb_calls ?f @
                        getDocsSinceLocalIndex b (nextIndex ?f) (Some 40)\<rparr>],
                     immediates := immediates b @ [i]\<rparr>"
    using assms by (auto simp: continueAsyncFollower_def Let_def split: if_splits)
  then show ?thesis
  proof cases
    case same
    then show ?thesis by simp
  next
    case sleep
    then show ?thesis by (intro disjI2 exI [of _ "?f\<lparr>state := Some Sleeping\<rparr>"]) auto
  next
    case batch
    then show ?thesis
      by (intro disjI2 exI [of _ "?f\<lparr>cb_calls := cb_calls ?f @
                        getDocsSinceLocalIndex b (nextIndex ?f) (Some 40)\<rparr>"]) auto
  qed
qed

lemma continueAsyncFollower_effect:
  assumes c: "continueAsyncFollower i b = Inr b'" and i: "i < length (followers b)"
    and k: "kind (followers b ! i) = Async"
  shows "highestLocalIndex b' = highestLocalIndex b \<and>
         map kind (followers b') = map kind (followers b) \<and>
         set (immediates b') \<subseteq> insert i (set (immediates b)) \<and>
         (\<forall>g\<in>set (followers b'). kind g = Sync \<longrightarrow> g \<in> set (followers b))"
proof -
  from continueAsyncFollower_cases [OF c i] show ?thesis
  proof
    assume "b' = b"
    then show ?thesis by auto
  next
    assume "\<exists>g. kind g = kind (followers b ! i) \<and> followers b' = (followers b)[i := g] \<and>
              highestLocalIndex b' = highestLocalIndex b \<and>
              set (immediates b') \<subseteq> insert i (set (immediates b))"
    then obtain g where g: "kind g = Async" and F: "followers b' = (followers b)[i := g]"
      and H: "highestLocalIndex b' = highestLocalIndex b"
      and I: "set (immediates b') \<subseteq> insert i (set (immediates b))"
      using k by auto
    have u: "map kind ((followers b)[i := g]) = map kind (followers b)"
      using g i k by (simp add: map_update list_update_same_conv)
    have s: "\<forall>g'\<in>set ((followers b)[i := g]). kind g' = Sync \<longrightarrow> g' \<in> set (followers b)"
      using g set_update_subset_insert [of "followers b" i g] by auto
    show ?thesis unfolding F using H I u s by blast
  qed
qed

lemma followersOk_runImmediate:
  assumes ok: "followersOk b"
  shows "followersOk (snd (step b RunImmediate))"
proof (cases "immediates b")
  case Nil
  then show ?thesis using ok by (simp add: step_def runImmediate_def)
next
  case (Cons i rest)
  let ?b = "b\<lparr>immediates := rest\<rparr>"
  have old: "\<forall>j\<in>set (immediates b). j < length (followers b) \<and> kind (followers b ! j) = Async"
    and sync: "\<forall>g\<in>set (followers b). kind g = Sync \<longrightarrow>
          (\<exists>m. map localIndex (cb_calls g) =
                 map Some (filter (\<lambda>i. m \<le> i) (map fst (docWithLocalIndex b))))"
    using ok by (simp_all add: followersOk_def list_all_iff)
  have i: "i < length (followers ?b)" "kind (followers ?b ! i) = Async"
    using old Cons by simp_all
  have ok': "followersOk ?b"
    using old sync Cons by (simp add: followersOk_def list_all_iff)
  show ?thesis
  proof (cases "continueAsyncFollower i ?b")
    case (Inl e)
    then show ?thesis using ok' Cons by (simp add: step_def runImmediate_def)
  next
    case (Inr b')
    from continueAsyncFollower_effect [OF Inr i]
    have K: "map kind (followers b') = map kind (followers b)"
      and I: "set (immediates b') \<subseteq> insert i (set rest)"
      and S: "\<forall>g\<in>set (followers b'). kind g = Sync \<longrightarrow> g \<in> set (followers b)"
      by simp_all
    have D: "docWithLocalIndex b' = docWithLocalIndex b"
      using sameDocs_fields(2) [OF sameDocs_continue [OF Inr]] by simp
    from K have L: "length (followers b') = length (followers b)" by (metis length_map)
    have N: "kind (followers b' ! j) = kind (followers b ! j)" if "j < length (followers b)" for j
      using that K L by (metis nth_map)
    have 1: "\<forall>j\<in>set (immediates b'). j < length (followers b') \<and> kind (followers b' ! j) = Async"
      using I old Cons L N by auto
    have 2: "\<forall>g\<in>set (followers b'). kind g = Sync \<longrightarrow>
          (\<exists>m. map localIndex (cb_calls g) =
                 map Some (filter (\<lambda>i. m \<le> i) (map fst (docWithLocalIndex b'))))"
      using S sync D by auto
    have "followersOk b'" unfolding followersOk_def list_all_iff using 1 2 by blast
    then show ?thesis using Inr Cons by (simp add: step_def runImmediate_def)
  qed
qed

lemma followersOk_run:
  "freshFollowers cs \<Longrightarrow> followersOk (snd (run new_Bowl cs))"
proof (induction cs rule: rev_induct)
  case Nil
  show ?case by (simp add: followersOk_new)
next
  case (snoc c cs)
  from snoc.prems have fr: "freshFollowers cs"
    and fc: "case c of AddFollower f \<Rightarrow> cb_calls f = [] | _ \<Rightarrow> True"
    by (simp_all add: freshFollowers_snoc)
  let ?b = "snd (run new_Bowl cs)"
  have ok: "followersOk ?b" by (rule snoc.IH [OF fr])
  have r: "retainedOk ?b" by (rule run_invariants)
  have "followersOk (snd (step ?b c))"
  proof (cases c)
    case (Upsert d)
    then show ?thesis using followersOk_upsert [OF ok r, of d]
      by (simp add: step_def case_prod_beta)
  next
    case (Write env keypair w)
    obtain d where "writeDoc env ?b keypair w = upsert ?b d" using writeDoc_upsert by blast
    then show ?thesis using Write followersOk_upsert [OF ok r, of d]
      by (simp add: step_def case_prod_beta)
  next
    case (AddFollower f)
    then show ?thesis using followersOk_addFollower [OF ok, of f] fc by (simp add: step_def)
  next
    case OnWrite
    then show ?thesis using followersOk_onWrite [OF ok] by (simp add: step_def)
  next
    case RunImmediate
    then show ?thesis using followersOk_runImmediate [OF ok] by simp
  qed
  then show ?case by (simp only: run_snoc)
qed

lemma sync_follower_calls:
  assumes "freshFollowers cs" and "f \<in> set (followers (snd (run new_Bowl cs)))"
    and "kind f = Sync"
  shows "sorted_wrt indexLess (map localIndex (cb_calls f)) \<and>
         (\<exists>m. map localIndex (cb_calls f) =
               map Some (filter (\<lambda>i. m \<le> i)
                           (map fst (docWithLocalIndex (snd (run new_Bowl cs))))))"
proof -
  from followersOk_run [OF assms(1)] assms(2,3)
  obtain m where m: "map localIndex (cb_calls f) =
      map Some (filter (\<lambda>i. m \<le> i) (map fst (docWithLocalIndex (snd (run new_Bowl cs)))))"
    by (auto simp: followersOk_def list_all_iff)
  have "sorted_wrt (<) (map fst (docWithLocalIndex (snd (run new_Bowl cs))))"
    using run_invariants(2) [of cs] by (simp add: retainedOk_def)
  then have "sorted_wrt (<) (filter (\<lambda>i. m \<le> i)
      (map fst (docWithLocalIndex (snd (run new_Bowl cs)))))"
    by (rule sorted_wrt_filter)
  then have "sorted_wrt indexLess (map localIndex (cb_calls f))"
    unfolding m by (simp add: sorted_wrt_map indexLess_def)
  then show ?thesis using m by blast
qed

section \<open>The claims\<close>

subsection \<open>C1: one document for a path and an author\<close>

text \<open>
  C1 (the code departs from the claim). The claim: the document that an accepted
  \<^verbatim>\<open>upsert\<close> displaces leaves all three indexes, and after an author wrote one path twice
  \<^verbatim>\<open>getAllDocs()\<close> has one document for that path and author. \<^verbatim>\<open>upsert\<close> deletes from no
  index: it overwrites the entry of \<open>docWithPathAndAuthor\<close> only. After the author
  \<^verbatim>\<open>@a\<close> wrote \<^verbatim>\<open>/a\<close> twice, both writes accepted, \<^verbatim>\<open>getAllDocs()\<close> returns the two
  documents, the array of the path has two elements and the index by local index has
  the keys 1 and 2. (In every run \<^verbatim>\<open>getAllDocs()\<close> returns as many documents as were
  ever stored: lemma \<open>getAllDocs_length\<close>.)
\<close>

theorem same_author_twice_at_input:
  "map (\<lambda>d. (path d, author d, content d, localIndex d))
     (getAllDocs (snd (run new_Bowl
        [Write (exampleEnv 100 ''u1'') \<lparr>address = ''@a'', secret = ''k''\<rparr>
           \<lparr>toWrite_path = ''/a'', toWrite_author = ''@a'', toWrite_content = ''x''\<rparr>,
         Write (exampleEnv 200 ''u2'') \<lparr>address = ''@a'', secret = ''k''\<rparr>
           \<lparr>toWrite_path = ''/a'', toWrite_author = ''@a'', toWrite_content = ''y''\<rparr>])) True) =
     [(''/a'', ''@a'', ''y'', Some 2), (''/a'', ''@a'', ''x'', Some 1)] \<and>
   map_option length (getAllDocsAtPath (snd (run new_Bowl
        [Write (exampleEnv 100 ''u1'') \<lparr>address = ''@a'', secret = ''k''\<rparr>
           \<lparr>toWrite_path = ''/a'', toWrite_author = ''@a'', toWrite_content = ''x''\<rparr>,
         Write (exampleEnv 200 ''u2'') \<lparr>address = ''@a'', secret = ''k''\<rparr>
           \<lparr>toWrite_path = ''/a'', toWrite_author = ''@a'', toWrite_content = ''y''\<rparr>])) ''/a'') =
     Some 2 \<and>
   map fst (docWithLocalIndex (snd (run new_Bowl
        [Write (exampleEnv 100 ''u1'') \<lparr>address = ''@a'', secret = ''k''\<rparr>
           \<lparr>toWrite_path = ''/a'', toWrite_author = ''@a'', toWrite_content = ''x''\<rparr>,
         Write (exampleEnv 200 ''u2'') \<lparr>address = ''@a'', secret = ''k''\<rparr>
           \<lparr>toWrite_path = ''/a'', toWrite_author = ''@a'', toWrite_content = ''y''\<rparr>]))) =
     [1, 2] \<and>
   map fst (fst (run new_Bowl
        [Write (exampleEnv 100 ''u1'') \<lparr>address = ''@a'', secret = ''k''\<rparr>
           \<lparr>toWrite_path = ''/a'', toWrite_author = ''@a'', toWrite_content = ''x''\<rparr>,
         Write (exampleEnv 200 ''u2'') \<lparr>address = ''@a'', secret = ''k''\<rparr>
           \<lparr>toWrite_path = ''/a'', toWrite_author = ''@a'', toWrite_content = ''y''\<rparr>])) =
     [Inr AcceptedAndLatest, Inr AcceptedAndLatest]"
  by code_simp

subsection \<open>C2: the order of the documents at a path\<close>

text \<open>
  C2 (amended). In every run the array of a path is not empty and holds documents of
  that path only, and \<^verbatim>\<open>getLatestDocAtPath\<close> returns its element 0. When the documents of
  the array that have one signature have one timestamp, the array is sorted by
  timestamp, the newest first, and no document of it has a higher timestamp than
  element 0; the signature does not break a tie between two timestamps. So when a
  document \<open>dA\<close> and then a document \<open>dB\<close> with the same path and the same timestamp are
  upserted into an empty bowl, the first of them accepted, \<^verbatim>\<open>getLatestDocAtPath\<close> returns
  \<open>dA\<close>, whichever signature is greater.
\<close>

theorem per_path_order:
  "(getAllDocsAtPath (snd (run new_Bowl cs)) p = Some docs \<longrightarrow>
      docs \<noteq> [] \<and> list_all (\<lambda>x. path x = p) docs \<and>
      getLatestDocAtPath (snd (run new_Bowl cs)) p = Some (hd docs) \<and>
      (signaturesAgree docs \<longrightarrow>
         sorted_wrt (\<lambda>x y. timestamp y \<le> timestamp x) docs \<and>
         list_all (\<lambda>x. timestamp x \<le> timestamp (hd docs)) docs)) \<and>
   (path dA = path dB \<and> timestamp dA = timestamp dB \<and> \<not> frozen dA \<longrightarrow>
      getLatestDocAtPath (snd (run new_Bowl [Upsert dA, Upsert dB])) (path dA) =
        Some (storedAs 1 dA))"
proof (intro conjI impI)
  assume "path dA = path dB \<and> timestamp dA = timestamp dB \<and> \<not> frozen dA"
  then show "getLatestDocAtPath (snd (run new_Bowl [Upsert dA, Upsert dB])) (path dA) =
        Some (storedAs 1 dA)"
    by (intro two_upserts_latest) simp_all
next
  let ?b = "snd (run new_Bowl cs)"
  assume h: "getAllDocsAtPath ?b p = Some docs"
  then have m: "map_of (docsByPathNewestFirst ?b) p = Some docs"
    by (simp add: getAllDocsAtPath_def)
  have "indexesOk ?b" by (rule run_invariants)
  then have "list_all (\<lambda>(p, docs). docs \<noteq> [] \<and> list_all (\<lambda>x. path x = p) docs)
        (docsByPathNewestFirst ?b)"
    by (simp add: indexesOk_def)
  from map_of_list_all [OF m this]
  show ne: "docs \<noteq> []" and "list_all (\<lambda>x. path x = p) docs"
    by simp_all
  from ne obtain x xs where d: "docs = x # xs" by (cases docs) auto
  show "getLatestDocAtPath ?b p = Some (hd docs)"
    by (simp add: getLatestDocAtPath_def m d)
  assume a: "signaturesAgree docs"
  have "arraysSorted ?b" by (rule run_invariants)
  from map_of_list_all [OF m this [unfolded arraysSorted_def]] a
  have s: "newestFirst docs" by simp
  then show "sorted_wrt (\<lambda>x y. timestamp y \<le> timestamp x) docs"
    by (simp add: newestFirst_def)
  show "list_all (\<lambda>x. timestamp x \<le> timestamp (hd docs)) docs"
    using newestFirst_hd [of x xs] s by (simp add: d)
qed

text \<open>
  Three authors at \<^verbatim>\<open>/p\<close>, the first two with the timestamp 100, the third with 300;
  the document of the first author is delivered a second time, which the bowl answers
  with \<^verbatim>\<open>AlreadyHadIt\<close>.
\<close>

lemma three_authors_array:
  "getAllDocsAtPath (snd (run new_Bowl
      [Upsert (exampleDoc ''/p'' 100 ''@a'' ''s1''), Upsert (exampleDoc ''/p'' 100 ''@b'' ''s2''),
       Upsert (exampleDoc ''/p'' 100 ''@a'' ''s1''), Upsert (exampleDoc ''/p'' 300 ''@c'' ''s3'')])) ''/p'' =
     Some [storedAs 3 (exampleDoc ''/p'' 300 ''@c'' ''s3''), storedAs 1 (exampleDoc ''/p'' 100 ''@a'' ''s1''),
      storedAs 2 (exampleDoc ''/p'' 100 ''@b'' ''s2'')] \<and>
   signaturesAgree
     [storedAs 3 (exampleDoc ''/p'' 300 ''@c'' ''s3''), storedAs 1 (exampleDoc ''/p'' 100 ''@a'' ''s1''),
      storedAs 2 (exampleDoc ''/p'' 100 ''@b'' ''s2'')] \<and>
   map fst (fst (run new_Bowl
      [Upsert (exampleDoc ''/p'' 100 ''@a'' ''s1''), Upsert (exampleDoc ''/p'' 100 ''@b'' ''s2''),
       Upsert (exampleDoc ''/p'' 100 ''@a'' ''s1''), Upsert (exampleDoc ''/p'' 300 ''@c'' ''s3'')])) =
     [Inr AcceptedAndLatest, Inr AcceptedButNotLatest, Inr AlreadyHadIt, Inr AcceptedAndLatest]"
  by code_simp

lemma two_authors_tie:
  "path (exampleDoc ''/p'' 100 ''@a'' ''s1'') = path (exampleDoc ''/p'' 100 ''@b'' ''s2'') \<and>
   timestamp (exampleDoc ''/p'' 100 ''@a'' ''s1'') = timestamp (exampleDoc ''/p'' 100 ''@b'' ''s2'') \<and>
   \<not> frozen (exampleDoc ''/p'' 100 ''@a'' ''s1'')"
  by code_simp

theorem per_path_order_witness:
  "getAllDocsAtPath (snd (run new_Bowl
      [Upsert (exampleDoc ''/p'' 100 ''@a'' ''s1''), Upsert (exampleDoc ''/p'' 100 ''@b'' ''s2''),
       Upsert (exampleDoc ''/p'' 100 ''@a'' ''s1''), Upsert (exampleDoc ''/p'' 300 ''@c'' ''s3'')])) ''/p'' =
     Some [storedAs 3 (exampleDoc ''/p'' 300 ''@c'' ''s3''), storedAs 1 (exampleDoc ''/p'' 100 ''@a'' ''s1''),
      storedAs 2 (exampleDoc ''/p'' 100 ''@b'' ''s2'')] \<and>
   signaturesAgree
     [storedAs 3 (exampleDoc ''/p'' 300 ''@c'' ''s3''), storedAs 1 (exampleDoc ''/p'' 100 ''@a'' ''s1''),
      storedAs 2 (exampleDoc ''/p'' 100 ''@b'' ''s2'')] \<and>
   sorted_wrt (\<lambda>x y. timestamp y \<le> timestamp x)
     [storedAs 3 (exampleDoc ''/p'' 300 ''@c'' ''s3''), storedAs 1 (exampleDoc ''/p'' 100 ''@a'' ''s1''),
      storedAs 2 (exampleDoc ''/p'' 100 ''@b'' ''s2'')] \<and>
   getLatestDocAtPath (snd (run new_Bowl
      [Upsert (exampleDoc ''/p'' 100 ''@a'' ''s1''), Upsert (exampleDoc ''/p'' 100 ''@b'' ''s2''),
       Upsert (exampleDoc ''/p'' 100 ''@a'' ''s1''), Upsert (exampleDoc ''/p'' 300 ''@c'' ''s3'')])) ''/p'' =
     Some (hd [storedAs 3 (exampleDoc ''/p'' 300 ''@c'' ''s3''), storedAs 1 (exampleDoc ''/p'' 100 ''@a'' ''s1''),
      storedAs 2 (exampleDoc ''/p'' 100 ''@b'' ''s2'')]) \<and>
   path (exampleDoc ''/p'' 100 ''@a'' ''s1'') = path (exampleDoc ''/p'' 100 ''@b'' ''s2'') \<and>
   timestamp (exampleDoc ''/p'' 100 ''@a'' ''s1'') = timestamp (exampleDoc ''/p'' 100 ''@b'' ''s2'') \<and>
   \<not> frozen (exampleDoc ''/p'' 100 ''@a'' ''s1'') \<and>
   getLatestDocAtPath (snd (run new_Bowl
      [Upsert (exampleDoc ''/p'' 100 ''@a'' ''s1''), Upsert (exampleDoc ''/p'' 100 ''@b'' ''s2'')]))
     (path (exampleDoc ''/p'' 100 ''@a'' ''s1'')) =
     Some (storedAs 1 (exampleDoc ''/p'' 100 ''@a'' ''s1''))"
  using per_path_order [of
      "[Upsert (exampleDoc ''/p'' 100 ''@a'' ''s1''), Upsert (exampleDoc ''/p'' 100 ''@b'' ''s2''),
       Upsert (exampleDoc ''/p'' 100 ''@a'' ''s1''), Upsert (exampleDoc ''/p'' 300 ''@c'' ''s3'')]"
      "''/p''"
      "[storedAs 3 (exampleDoc ''/p'' 300 ''@c'' ''s3''), storedAs 1 (exampleDoc ''/p'' 100 ''@a'' ''s1''),
      storedAs 2 (exampleDoc ''/p'' 100 ''@b'' ''s2'')]"
      "exampleDoc ''/p'' 100 ''@a'' ''s1''" "exampleDoc ''/p'' 100 ''@b'' ''s2''"]
    three_authors_array two_authors_tie
  by blast

text \<open>
  The claim as it is written fails twice. First, the scenario S2: \<^verbatim>\<open>@a\<close> and then \<^verbatim>\<open>@b\<close>
  upsert at \<^verbatim>\<open>/p\<close> with the timestamp 100, and the signature of \<^verbatim>\<open>@b\<close> is the greater
  one; the document of \<^verbatim>\<open>@b\<close> is accepted but not the latest, and \<^verbatim>\<open>getLatestDocAtPath\<close>
  returns the document of \<^verbatim>\<open>@a\<close>. Second, two documents with one signature: after
  \<^verbatim>\<open>@a\<close> with the timestamp 300 and \<^verbatim>\<open>@b\<close> with the timestamp 200, the document of \<^verbatim>\<open>@d\<close>
  with the timestamp 400 and the signature of \<^verbatim>\<open>@b\<close> stays last in the array, is not the
  latest, and element 0 does not have the highest timestamp.
\<close>

theorem latest_is_first_stored:
  "signature (exampleDoc ''/p'' 100 ''@a'' ''s1'') < signature (exampleDoc ''/p'' 100 ''@b'' ''s2'') \<and>
   timestamp (exampleDoc ''/p'' 100 ''@a'' ''s1'') = timestamp (exampleDoc ''/p'' 100 ''@b'' ''s2'') \<and>
   map fst (fst (run new_Bowl
      [Upsert (exampleDoc ''/p'' 100 ''@a'' ''s1''), Upsert (exampleDoc ''/p'' 100 ''@b'' ''s2'')])) =
     [Inr AcceptedAndLatest, Inr AcceptedButNotLatest] \<and>
   map_option author (getLatestDocAtPath (snd (run new_Bowl
      [Upsert (exampleDoc ''/p'' 100 ''@a'' ''s1''), Upsert (exampleDoc ''/p'' 100 ''@b'' ''s2'')]))
      ''/p'') = Some ''@a'' \<and>
   author (exampleDoc ''/p'' 100 ''@b'' ''s2'') = ''@b'' \<and>
   map_option (map (\<lambda>d. (author d, timestamp d, signature d)))
     (getAllDocsAtPath (snd (run new_Bowl
      [Upsert (exampleDoc ''/p'' 300 ''@a'' ''s1''), Upsert (exampleDoc ''/p'' 200 ''@b'' ''s2''),
       Upsert (exampleDoc ''/p'' 400 ''@d'' ''s2'')])) ''/p'') =
     Some [(''@a'', 300, ''s1''), (''@b'', 200, ''s2''), (''@d'', 400, ''s2'')] \<and>
   map fst (fst (run new_Bowl
      [Upsert (exampleDoc ''/p'' 300 ''@a'' ''s1''), Upsert (exampleDoc ''/p'' 200 ''@b'' ''s2''),
       Upsert (exampleDoc ''/p'' 400 ''@d'' ''s2'')])) =
     [Inr AcceptedAndLatest, Inr AcceptedButNotLatest, Inr AcceptedButNotLatest] \<and>
   map_option author (getLatestDocAtPath (snd (run new_Bowl
      [Upsert (exampleDoc ''/p'' 300 ''@a'' ''s1''), Upsert (exampleDoc ''/p'' 200 ''@b'' ''s2''),
       Upsert (exampleDoc ''/p'' 400 ''@d'' ''s2'')])) ''/p'') = Some ''@a''"
  by code_simp

subsection \<open>C3: the timestamp of a written document\<close>

text \<open>
  C3 (the code departs from the claim). The claim: \<^verbatim>\<open>write\<close> sets the timestamp to
  \<open>max (now ()) (latestAtPath.timestamp + 1)\<close>. \<^verbatim>\<open>write\<close> takes the timestamp of the latest
  document at the path plus one whenever there is such a document, and the clock
  otherwise (lemma \<open>writeDoc_timestamp\<close>). With a document of timestamp 5 at \<^verbatim>\<open>/a\<close> and
  the clock at 1000, the written document has the timestamp 6, which is below the clock.
\<close>

theorem write_timestamp_at_input:
  "timestamp (fst (snd (writeDoc (exampleEnv 1000 ''u1'')
       (snd (snd (upsert new_Bowl (exampleDoc ''/a'' 5 ''@b'' ''s1''))))
       \<lparr>address = ''@a'', secret = ''k''\<rparr>
       \<lparr>toWrite_path = ''/a'', toWrite_author = ''@a'', toWrite_content = ''y''\<rparr>))) = 6 \<and>
   now (exampleEnv 1000 ''u1'') = 1000 \<and>
   map_option timestamp (getLatestDocAtPath
       (snd (snd (upsert new_Bowl (exampleDoc ''/a'' 5 ''@b'' ''s1'')))) ''/a'') = Some 5"
  by code_simp

subsection \<open>C4: the query filter\<close>

text \<open>
  C4 (the code departs from the claim). The claim: \<^verbatim>\<open>pathEndsWith\<close> matches iff the value
  is a suffix of the path, \<^verbatim>\<open>timestampLt\<close> iff the timestamp is strictly less than the
  value, \<^verbatim>\<open>contentLengthLt\<close> iff the content length is strictly less than the value.
  \<^verbatim>\<open>docMatchesFilter\<close> tests \<^verbatim>\<open>startsWith\<close> for \<^verbatim>\<open>pathEndsWith\<close> and \<^verbatim>\<open>>\<close> for both
  \<^verbatim>\<open>Lt\<close> filters (lemma \<open>docMatchesFilter_iff\<close>). For the document at \<^verbatim>\<open>/abc\<close> with timestamp 5 and content length 1:
  \<^verbatim>\<open>bc\<close> is a suffix of its path, 5 is less than 10 and 1 is less than 10, and the
  three filters reject it.
\<close>

theorem docMatchesFilter_at_input:
  "suffix ''bc'' (path (exampleDoc ''/abc'' 5 ''@a'' ''s1'')) \<and>
   docMatchesFilter (exampleDoc ''/abc'' 5 ''@a'' ''s1'')
     (emptyFilter\<lparr>filter_pathEndsWith := Some ''bc''\<rparr>) = False \<and>
   timestamp (exampleDoc ''/abc'' 5 ''@a'' ''s1'') < 10 \<and>
   docMatchesFilter (exampleDoc ''/abc'' 5 ''@a'' ''s1'')
     (emptyFilter\<lparr>filter_timestampLt := Some 10\<rparr>) = False \<and>
   contentLength (exampleDoc ''/abc'' 5 ''@a'' ''s1'') < 10 \<and>
   docMatchesFilter (exampleDoc ''/abc'' 5 ''@a'' ''s1'')
     (emptyFilter\<lparr>filter_contentLengthLt := Some 10\<rparr>) = False"
  by code_simp

subsection \<open>C5: what a follower is called with\<close>

text \<open>
  C5 (the code departs from the claim). The claim: the local indexes of the documents a
  follower is called with are strictly increasing, and an async follower that reaches
  the highest local index goes to sleep. \<^verbatim>\<open>continueAsyncFollower\<close> never changes
  \<open>nextIndex\<close>. With one document in the bowl and an async follower registered with
  \<open>nextIndex = 1\<close>, three turns of the event loop call the follower three times with the
  document of local index 1; the follower is still running, and its next turn is
  queued. (For sync followers the claim holds: lemma \<open>sync_follower_calls\<close>. In
  general \<^verbatim>\<open>continueAsyncFollower\<close> leaves every \<open>nextIndex\<close> as it is and keeps a
  running follower that has documents to process running: lemmas
  \<open>continueAsyncFollower_nextIndex\<close> and \<open>continueAsyncFollower_running\<close>.)
\<close>

theorem async_follower_at_input:
  "map (\<lambda>f. (map localIndex (cb_calls f), nextIndex f, state f))
     (followers (snd (run new_Bowl
        [Upsert (exampleDoc ''/a'' 5 ''@a'' ''s1''), AddFollower (exampleFollower Async 1),
         RunImmediate, RunImmediate, RunImmediate]))) =
     [([Some 1, Some 1, Some 1], 1, Some Running)] \<and>
   immediates (snd (run new_Bowl
        [Upsert (exampleDoc ''/a'' 5 ''@a'' ''s1''), AddFollower (exampleFollower Async 1),
         RunImmediate, RunImmediate, RunImmediate])) = [0] \<and>
   highestLocalIndex (snd (run new_Bowl
        [Upsert (exampleDoc ''/a'' 5 ''@a'' ''s1''), AddFollower (exampleFollower Async 1),
         RunImmediate, RunImmediate, RunImmediate])) = 1"
  by code_simp

subsection \<open>C6: the registration of a sync follower\<close>

text \<open>
  C6 (the code departs from the claim). The claim: \<^verbatim>\<open>addFollower\<close> calls a sync follower
  once for every document with a local index from \<open>nextIndex\<close> on, in ascending order,
  and advances \<open>nextIndex\<close> as it goes. \<^verbatim>\<open>addFollower\<close> makes the calls and leaves
  \<open>nextIndex\<close> as it was. With five documents and \<open>nextIndex = 1\<close> the follower is called
  with the local indexes 1 to 5, and its \<open>nextIndex\<close> is 1 when \<^verbatim>\<open>addFollower\<close> returns.
  (The calls are as the claim says in every bowl of a run, and \<open>nextIndex\<close> is never
  advanced: lemma \<open>addFollower_sync_calls\<close>.)
\<close>

theorem sync_follower_at_input:
  "map (\<lambda>f. (map localIndex (cb_calls f), nextIndex f, state f))
     (followers (snd (run new_Bowl
        [Upsert (exampleDoc ''/a'' 1 ''@a'' ''s1''), Upsert (exampleDoc ''/b'' 2 ''@a'' ''s2''),
         Upsert (exampleDoc ''/c'' 3 ''@a'' ''s3''), Upsert (exampleDoc ''/d'' 4 ''@a'' ''s4''),
         Upsert (exampleDoc ''/e'' 5 ''@a'' ''s5''), AddFollower (exampleFollower Sync 1)]))) =
     [([Some 1, Some 2, Some 3, Some 4, Some 5], 1, Some Sleeping)]"
  by code_simp

subsection \<open>C7: the local indexes\<close>

text \<open>
  C7 (the code departs from the claim). The claim: the local indexes assigned to the
  stored documents start at 1, and each stored document gets the next integer.
  \<^verbatim>\<open>upsert\<close> increments \<open>highestLocalIndex\<close> before it assigns \<^verbatim>\<open>doc._localIndex\<close>, and the
  assignment throws when the document is frozen, as is every document that a bowl has
  stored. A new bowl that is given the document another bowl has stored throws a
  \<^verbatim>\<open>TypeError\<close>, stores nothing and has the highest local index 1; the next document,
  the first one it stores, gets the local index 2. (In every run the assigned local
  indexes are strictly increasing and a stored document gets \<open>highestLocalIndex + 1\<close>:
  lemmas \<open>assigned_increasing\<close> and \<open>upsert_next_index\<close>. In a run where no call is given
  a frozen document they are \<open>1, 2, \<dots>, highestLocalIndex\<close>: lemma
  \<open>localIndexes_unfrozen\<close>.)
\<close>

theorem frozen_document_at_input:
  "frozen (fst (snd (upsert new_Bowl (exampleDoc ''/a'' 10 ''@a'' ''s1'')))) \<and>
   map fst (fst (run new_Bowl
      [Upsert (fst (snd (upsert new_Bowl (exampleDoc ''/a'' 10 ''@a'' ''s1''))))])) =
     [Inl TypeError] \<and>
   highestLocalIndex (snd (run new_Bowl
      [Upsert (fst (snd (upsert new_Bowl (exampleDoc ''/a'' 10 ''@a'' ''s1''))))])) = 1 \<and>
   docWithLocalIndex (snd (run new_Bowl
      [Upsert (fst (snd (upsert new_Bowl (exampleDoc ''/a'' 10 ''@a'' ''s1''))))])) = [] \<and>
   map fst (fst (run new_Bowl
      [Upsert (fst (snd (upsert new_Bowl (exampleDoc ''/a'' 10 ''@a'' ''s1'')))),
       Upsert (exampleDoc ''/b'' 20 ''@b'' ''s2'')])) =
     [Inl TypeError, Inr AcceptedAndLatest] \<and>
   assignedIndexes (fst (run new_Bowl
      [Upsert (fst (snd (upsert new_Bowl (exampleDoc ''/a'' 10 ''@a'' ''s1'')))),
       Upsert (exampleDoc ''/b'' 20 ''@b'' ''s2'')])) = [Some 2] \<and>
   map (\<lambda>(i, d). (i, path d, localIndex d)) (docWithLocalIndex (snd (run new_Bowl
      [Upsert (fst (snd (upsert new_Bowl (exampleDoc ''/a'' 10 ''@a'' ''s1'')))),
       Upsert (exampleDoc ''/b'' 20 ''@b'' ''s2'')]))) =
     [(2, ''/b'', Some 2)]"
  by code_simp

subsection \<open>C8: a call of \<^verbatim>\<open>upsert\<close> that does not save\<close>

text \<open>
  C8 (the code departs from the claim). The claim: when \<^verbatim>\<open>upsert\<close> returns \<^verbatim>\<open>Obsolete\<close>,
  \<^verbatim>\<open>AlreadyHadIt\<close> or \<^verbatim>\<open>Invalid\<close> the bowl is unchanged, and \<^verbatim>\<open>Obsolete\<close> is returned iff a
  document with the same path and author exists with a strictly higher overwrite key.
  The first half holds (lemma \<open>upsert_not_saved_unchanged\<close>). \<^verbatim>\<open>upsert\<close> looks the
  document of the same author up under the key \<^verbatim>\<open>path|author\<close>, and \<^verbatim>\<open>docIsValid\<close> does
  not keep the separator out of author addresses, as the comment on
  \<^verbatim>\<open>combinePathAndAuthor\<close> requires. With a document of the author \<^verbatim>\<open>c\<close> at the path
  \<^verbatim>\<open>a|b\<close> in the bowl, a document of the author \<^verbatim>\<open>b|c\<close> at the path \<^verbatim>\<open>a\<close> with a lower
  timestamp is \<^verbatim>\<open>Obsolete\<close>, and the bowl holds no document with its path and author.
  (In every bowl of a run where no author address contains the separator, whatever the
  paths, the second half holds as well: lemma \<open>Obsolete_in_run\<close>.)
\<close>

theorem Obsolete_without_same_path_author:
  "fst (upsert (snd (run new_Bowl [Upsert (exampleDoc ''a|b'' 200 ''c'' ''s1'')]))
         (exampleDoc ''a'' 150 ''b|c'' ''s2'')) = Inr Obsolete \<and>
   map (\<lambda>e. (path e, author e))
     (getAllDocs (snd (run new_Bowl [Upsert (exampleDoc ''a|b'' 200 ''c'' ''s1'')])) False) =
     [(''a|b'', ''c'')] \<and>
   (path (exampleDoc ''a'' 150 ''b|c'' ''s2''), author (exampleDoc ''a'' 150 ''b|c'' ''s2'')) =
     (''a'', ''b|c'') \<and>
   list_ex (\<lambda>e. path e = path (exampleDoc ''a'' 150 ''b|c'' ''s2'') \<and>
                author e = author (exampleDoc ''a'' 150 ''b|c'' ''s2'') \<and>
                overwriteKeyLess (exampleDoc ''a'' 150 ''b|c'' ''s2'') e)
     (getAllDocs (snd (run new_Bowl [Upsert (exampleDoc ''a|b'' 200 ''c'' ''s1'')])) False) =
     False"
  by code_simp

subsection \<open>C9: the paths of a query\<close>

text \<open>
  C9. In every bowl of a run and for every query, also the query that is left out,
  \<^verbatim>\<open>queryPaths\<close> returns the paths of the documents that \<^verbatim>\<open>queryDocs\<close> returns for the
  same query, without repetition and in ascending order, reversed when the query orders
  by \<^verbatim>\<open>path DESC\<close>.
\<close>

theorem queryPaths_sortedUnique:
  "queryPaths (snd (run new_Bowl cs)) q =
     (if (case q of Some q' \<Rightarrow> orderBy q' = Some PathDESC | None \<Rightarrow> False)
      then rev (sortedUnique (map path (queryDocs (snd (run new_Bowl cs)) q)))
      else sortedUnique (map path (queryDocs (snd (run new_Bowl cs)) q)))"
proof (cases "q = None \<or> q = Some emptyQuery")
  case True
  then have "\<not> (case q of Some q' \<Rightarrow> orderBy q' = Some PathDESC | None \<Rightarrow> False)"
    by (auto simp: emptyQuery_def)
  then show ?thesis using queryPaths_no_query [OF run_invariants(1) True] by simp
next
  case False
  then show ?thesis by (intro queryPaths_query) simp_all
qed

text \<open>
  Three documents at two paths, all versions, by descending path: the documents have
  the paths \<^verbatim>\<open>/b\<close>, \<^verbatim>\<open>/b\<close>, \<^verbatim>\<open>/a\<close>, and the paths of the query are \<^verbatim>\<open>/b\<close>, \<^verbatim>\<open>/a\<close>.
\<close>

theorem queryPaths_sortedUnique_witness:
  "queryPaths (snd (run new_Bowl
      [Upsert (exampleDoc ''/b'' 1 ''@a'' ''s1''), Upsert (exampleDoc ''/a'' 2 ''@a'' ''s2''),
       Upsert (exampleDoc ''/b'' 3 ''@b'' ''s3'')]))
     (Some (emptyQuery\<lparr>history := Some HistoryAll, orderBy := Some PathDESC\<rparr>)) = [''/b'', ''/a''] \<and>
   map path (queryDocs (snd (run new_Bowl
      [Upsert (exampleDoc ''/b'' 1 ''@a'' ''s1''), Upsert (exampleDoc ''/a'' 2 ''@a'' ''s2''),
       Upsert (exampleDoc ''/b'' 3 ''@b'' ''s3'')]))
     (Some (emptyQuery\<lparr>history := Some HistoryAll, orderBy := Some PathDESC\<rparr>))) =
     [''/b'', ''/b'', ''/a'']"
proof -
  have e: "map path (queryDocs (snd (run new_Bowl
      [Upsert (exampleDoc ''/b'' 1 ''@a'' ''s1''), Upsert (exampleDoc ''/a'' 2 ''@a'' ''s2''),
       Upsert (exampleDoc ''/b'' 3 ''@b'' ''s3'')]))
     (Some (emptyQuery\<lparr>history := Some HistoryAll, orderBy := Some PathDESC\<rparr>))) =
     [''/b'', ''/b'', ''/a'']"
    by code_simp
  have s: "rev (sortedUnique [''/b'', ''/b'', ''/a'']) = [''/b'', ''/a'']" by code_simp
  have o: "orderBy (emptyQuery\<lparr>history := Some HistoryAll, orderBy := Some PathDESC\<rparr>) = Some PathDESC"
    by simp
  show ?thesis
    using queryPaths_sortedUnique [of "[Upsert (exampleDoc ''/b'' 1 ''@a'' ''s1''),
       Upsert (exampleDoc ''/a'' 2 ''@a'' ''s2''), Upsert (exampleDoc ''/b'' 3 ''@b'' ''s3'')]"
      "Some (emptyQuery\<lparr>history := Some HistoryAll, orderBy := Some PathDESC\<rparr>)"]
    by (simp only: e s o option.case if_True simp_thms)
qed

subsection \<open>C10: the validity check is a stub\<close>

text \<open>
  C10. \<^verbatim>\<open>docIsValid\<close> accepts every document, and \<^verbatim>\<open>upsert\<close> returns \<^verbatim>\<open>Invalid\<close> for no
  document and no bowl: the branch of \<^verbatim>\<open>upsert\<close> that returns \<^verbatim>\<open>Invalid\<close> is unreachable.
\<close>

theorem upsert_never_Invalid: "docIsValid d \<and> fst (upsert b d) \<noteq> Inr Invalid"
proof (cases "wins b d")
  case True
  then show ?thesis using upsert_wins_outcome [of b d] by (auto simp: docIsValid_def saved_def)
next
  case False
  then show ?thesis using upsert_rejected [of b d] by (auto simp: docIsValid_def)
qed

end
